theory Spec2Isabelle
  imports Complex_Main "HOL-Library.Word" "HOL-Library.Signed_Division"
begin

unbundle bit_operations_syntax

section \<open>Protocol constants (sham.h)\<close>

abbreviation SHAM_SYN :: "16 word" where "SHAM_SYN \<equiv> 0x1"
abbreviation SHAM_ACK :: "16 word" where "SHAM_ACK \<equiv> 0x2"
abbreviation SHAM_FIN :: "16 word" where "SHAM_FIN \<equiv> 0x4"

abbreviation SHAM_MAX_DATA_SIZE :: nat where "SHAM_MAX_DATA_SIZE \<equiv> 1024"
abbreviation SHAM_WINDOW_SIZE :: int where "SHAM_WINDOW_SIZE \<equiv> 10"
abbreviation SHAM_RTO_MS :: int where "SHAM_RTO_MS \<equiv> 500"
abbreviation SHAM_MAX_RETRIES :: int where "SHAM_MAX_RETRIES \<equiv> 5"

text \<open>\<^verbatim>\<open>sizeof(struct sham_header)\<close>: two 32-bit and two 16-bit fields, no padding.\<close>

abbreviation SHAM_HEADER_SIZE :: nat where "SHAM_HEADER_SIZE \<equiv> 12"
abbreviation SHAM_MAX_PACKET_SIZE :: nat where "SHAM_MAX_PACKET_SIZE \<equiv> 1036"

abbreviation SHAM_DEFAULT_RECV_BUFFER_SIZE :: "16 word" where
  "SHAM_DEFAULT_RECV_BUFFER_SIZE \<equiv> 32768"
abbreviation SHAM_DEFAULT_ADVERTISED_WINDOW :: "16 word" where
  "SHAM_DEFAULT_ADVERTISED_WINDOW \<equiv> 16384"

section \<open>Byte order\<close>

text \<open>
  The host is taken to be little-endian (as on x86-64), so \<^verbatim>\<open>htonl\<close> and \<^verbatim>\<open>htons\<close>
  reverse the bytes of their argument, and \<^verbatim>\<open>ntohl\<close>, \<^verbatim>\<open>ntohs\<close> are the same functions.
\<close>

definition htons :: "16 word \<Rightarrow> 16 word" where
  "htons x = push_bit 8 x OR drop_bit 8 x"

definition htonl :: "32 word \<Rightarrow> 32 word" where
  "htonl x = push_bit 24 (ucast (ucast x :: 8 word))
          OR push_bit 16 (ucast (ucast (drop_bit 8 x) :: 8 word))
          OR push_bit 8 (ucast (ucast (drop_bit 16 x) :: 8 word))
          OR ucast (ucast (drop_bit 24 x) :: 8 word)"

definition ntohs :: "16 word \<Rightarrow> 16 word" where
  "ntohs x = htons x"

definition ntohl :: "32 word \<Rightarrow> 32 word" where
  "ntohl x = htonl x"

text \<open>
  What \<^verbatim>\<open>memcpy\<close> into a \<^verbatim>\<open>uint32_t\<close> or \<^verbatim>\<open>uint16_t\<close> field reads from
  consecutive bytes of a buffer on that host.
\<close>

definition load_u32 :: "8 word list \<Rightarrow> nat \<Rightarrow> 32 word" where
  "load_u32 bs i = ucast (bs ! i) OR push_bit 8 (ucast (bs ! (i + 1)))
                OR push_bit 16 (ucast (bs ! (i + 2))) OR push_bit 24 (ucast (bs ! (i + 3)))"

definition load_u16 :: "8 word list \<Rightarrow> nat \<Rightarrow> 16 word" where
  "load_u16 bs i = ucast (bs ! i) OR push_bit 8 (ucast (bs ! (i + 1)))"

section \<open>Data model (sham.h)\<close>

datatype sham_state_t =
    SHAM_CLOSED | SHAM_LISTEN | SHAM_SYN_SENT | SHAM_SYN_RECEIVED | SHAM_ESTABLISHED
  | SHAM_FIN_WAIT_1 | SHAM_FIN_WAIT_2 | SHAM_CLOSE_WAIT | SHAM_CLOSING | SHAM_LAST_ACK
  | SHAM_TIME_WAIT

record sham_header =
  seq_num :: "32 word"
  ack_num :: "32 word"
  flags :: "16 word"
  window_size :: "16 word"

text \<open>
  \<open>data\<close> holds the first \<open>data_len\<close> bytes of the array \<^verbatim>\<open>data[SHAM_MAX_DATA_SIZE]\<close>,
  the only ones any function reads; \<open>data_len\<close> is the \<^verbatim>\<open>size_t\<close> field.
\<close>

record sham_packet =
  header :: sham_header
  data :: "8 word list"
  data_len :: nat

record timeval =
  tv_sec :: int
  tv_usec :: int

record sham_window_entry =
  packet :: sham_packet
  send_time :: timeval
  retries :: int
  acked :: bool

text \<open>The field \<^verbatim>\<open>packet\<close> of \<^verbatim>\<open>struct sham_ooo_entry\<close> is \<open>ooo_packet\<close> here.\<close>

record sham_ooo_entry =
  ooo_packet :: sham_packet
  valid :: bool

text \<open>
  The two arrays of \<^verbatim>\<open>SHAM_WINDOW_SIZE\<close> entries are lists of length 10. The log files
  are left out: logging changes nothing else. \<open>peer_addr\<close> stands for the socket address.
\<close>

record sham_connection =
  sockfd :: int
  peer_addr :: nat
  peer_len :: nat
  send_seq :: "32 word"
  recv_seq :: "32 word"
  send_base :: "32 word"
  state :: sham_state_t
  send_window :: "sham_window_entry list"
  window_start :: int
  window_count :: int
  last_byte_sent :: "32 word"
  last_byte_acked :: "32 word"
  peer_window_size :: "16 word"
  recv_buffer_size :: "16 word"
  recv_buffer_used :: "16 word"
  ooo_buffer :: "sham_ooo_entry list"
  loss_rate :: real

section \<open>The environment\<close>

text \<open>
  What the operating system answers is read from scripts, one entry per call: the
  outcome of each wait on the socket, each random draw, each clock reading and whether
  each \<^verbatim>\<open>sendto\<close> succeeds. \<open>wire\<close> collects the packets handed to a successful
  \<^verbatim>\<open>sendto\<close>, oldest first.
\<close>

datatype recvfrom_result =
    RecvFailed bool  \<comment> \<open>\<^verbatim>\<open>recvfrom\<close> returned a negative value; the flag: errno is EBADF or ENOTSOCK\<close>
  | RecvDatagram "8 word list" nat  \<comment> \<open>the datagram that arrived and its source address\<close>

datatype select_result = SelTimeout | SelError | SelReady recvfrom_result

record world =
  net_script :: "nat \<Rightarrow> select_result"
  net_pos :: nat
  rand_script :: "nat \<Rightarrow> real"
  rand_pos :: nat
  clock_script :: "nat \<Rightarrow> timeval"
  clock_pos :: nat
  sendto_script :: "nat \<Rightarrow> bool"
  sendto_pos :: nat
  wire :: "sham_packet list"

definition gettimeofday :: "world \<Rightarrow> timeval \<times> world" where
  "gettimeofday w = (clock_script w (clock_pos w), w\<lparr>clock_pos := clock_pos w + 1\<rparr>)"

section \<open>Connections and packets (sham.c)\<close>

definition zero_packet :: sham_packet where
  "zero_packet = \<lparr>header = \<lparr>seq_num = 0, ack_num = 0, flags = 0, window_size = 0\<rparr>,
                  data = [], data_len = 0\<rparr>"

text \<open>\<^verbatim>\<open>sham_create_connection\<close>; the argument is what \<^verbatim>\<open>sham_generate_isn\<close> returned.\<close>

definition sham_create_connection :: "32 word \<Rightarrow> sham_connection" where
  "sham_create_connection isn =
     \<lparr>sockfd = -1, peer_addr = 0, peer_len = 0,
      send_seq = isn, recv_seq = 0, send_base = isn,
      state = SHAM_CLOSED,
      send_window = replicate 10 \<lparr>packet = zero_packet,
          send_time = \<lparr>tv_sec = 0, tv_usec = 0\<rparr>, retries = 0, acked = False\<rparr>,
      window_start = 0, window_count = 0,
      last_byte_sent = isn, last_byte_acked = isn,
      peer_window_size = SHAM_DEFAULT_ADVERTISED_WINDOW,
      recv_buffer_size = SHAM_DEFAULT_RECV_BUFFER_SIZE,
      recv_buffer_used = 0,
      ooo_buffer = replicate 10 \<lparr>ooo_packet = zero_packet, valid = False\<rparr>,
      loss_rate = 0\<rparr>"

text \<open>
  \<^verbatim>\<open>sham_create_packet\<close>. The payload pointer is an option (\<open>None\<close> is \<^verbatim>\<open>NULL\<close>);
  \<^verbatim>\<open>memcpy\<close> takes \<open>dlen\<close> bytes from it.
\<close>

definition sham_create_packet ::
  "32 word \<Rightarrow> 32 word \<Rightarrow> 16 word \<Rightarrow> 8 word list option \<Rightarrow> nat \<Rightarrow> sham_packet" where
  "sham_create_packet seq ack fl dat dlen =
     (let hdr = \<lparr>seq_num = htonl seq, ack_num = htonl ack, flags = htons fl,
                 window_size = htons SHAM_DEFAULT_ADVERTISED_WINDOW\<rparr>
      in case dat of
           Some bytes \<Rightarrow>
             if 0 < dlen \<and> dlen \<le> SHAM_MAX_DATA_SIZE
             then \<lparr>header = hdr, data = take dlen bytes, data_len = dlen\<rparr>
             else \<lparr>header = hdr, data = [], data_len = 0\<rparr>
         | None \<Rightarrow> \<lparr>header = hdr, data = [], data_len = 0\<rparr>)"

text \<open>
  \<^verbatim>\<open>sham_calculate_advertised_window\<close>: the subtraction is stored in a \<^verbatim>\<open>uint16_t\<close>.
  The static variable only decides whether a line is logged.
\<close>

definition sham_calculate_advertised_window :: "sham_connection \<Rightarrow> 16 word" where
  "sham_calculate_advertised_window conn =
     (let available_space = recv_buffer_size conn - recv_buffer_used conn
      in if available_space < 1024 then 1024 else available_space)"

definition sham_create_packet_with_conn ::
  "sham_connection \<Rightarrow> 32 word \<Rightarrow> 32 word \<Rightarrow> 16 word \<Rightarrow> 8 word list option \<Rightarrow> nat
     \<Rightarrow> sham_packet" where
  "sham_create_packet_with_conn conn seq ack fl dat dlen =
     (let pkt = sham_create_packet seq ack fl dat dlen;
          advertised_window = sham_calculate_advertised_window conn
      in pkt\<lparr>header := (header pkt)\<lparr>window_size := htons advertised_window\<rparr>\<rparr>)"

text \<open>
  \<^verbatim>\<open>sham_send_packet\<close>: the value returned is what \<^verbatim>\<open>sendto\<close> returned, the size
  of the datagram on success and \<open>-1\<close> on failure.
\<close>

definition sham_send_packet ::
  "sham_connection \<Rightarrow> sham_packet \<Rightarrow> world \<Rightarrow> int \<times> world" where
  "sham_send_packet conn pkt w =
     (let packet_size = SHAM_HEADER_SIZE + data_len pkt;
          w1 = w\<lparr>sendto_pos := sendto_pos w + 1\<rparr>
      in if sendto_script w (sendto_pos w)
         then (int packet_size, w1\<lparr>wire := wire w @ [pkt]\<rparr>)
         else (-1, w1))"

text \<open>
  The bytes \<^verbatim>\<open>sham_send_packet\<close> puts into its buffer for \<^verbatim>\<open>sendto\<close>: the header
  as it lies in memory, then \<open>data_len\<close> bytes of payload.
\<close>

definition store_u32 :: "32 word \<Rightarrow> 8 word list" where
  "store_u32 x = [ucast x, ucast (drop_bit 8 x), ucast (drop_bit 16 x), ucast (drop_bit 24 x)]"

definition store_u16 :: "16 word \<Rightarrow> 8 word list" where
  "store_u16 x = [ucast x, ucast (drop_bit 8 x)]"

definition datagram_of :: "sham_packet \<Rightarrow> 8 word list" where
  "datagram_of pkt =
     store_u32 (seq_num (header pkt)) @ store_u32 (ack_num (header pkt))
     @ store_u16 (flags (header pkt)) @ store_u16 (window_size (header pkt))
     @ take (data_len pkt) (data pkt)"

text \<open>
  \<^verbatim>\<open>sham_should_drop_packet\<close>: \<^verbatim>\<open>rand\<close> is called only for a positive loss rate; the
  script holds the quotients \<^verbatim>\<open>(float)rand() / (float)RAND_MAX\<close>.
\<close>

definition sham_should_drop_packet :: "real \<Rightarrow> world \<Rightarrow> bool \<times> world" where
  "sham_should_drop_packet rate w =
     (if rate \<le> 0 then (False, w)
      else (rand_script w (rand_pos w) < rate, w\<lparr>rand_pos := rand_pos w + 1\<rparr>))"

text \<open>
  \<^verbatim>\<open>sham_recv_packet\<close>, given what \<^verbatim>\<open>recvfrom\<close> did. The buffer handed to
  \<^verbatim>\<open>recvfrom\<close> has \<^verbatim>\<open>SHAM_MAX_PACKET_SIZE\<close> bytes: of a longer datagram the socket
  stores the first 1036 bytes, discards the rest and returns 1036.
\<close>

datatype recv_outcome = NoPacket int | GotPacket int sham_packet

definition sham_recv_packet ::
  "sham_connection \<Rightarrow> recvfrom_result \<Rightarrow> world \<Rightarrow> recv_outcome \<times> sham_connection \<times> world" where
  "sham_recv_packet conn rr w =
     (case rr of
        RecvFailed fatal \<Rightarrow>
          (NoPacket (-1), (if fatal then conn\<lparr>sockfd := -1\<rparr> else conn), w)
      | RecvDatagram dgram from_addr \<Rightarrow>
          (let buffer = take SHAM_MAX_PACKET_SIZE dgram;
               received = length buffer
           in if received < SHAM_HEADER_SIZE then (NoPacket (-1), conn, w)
              else
                (case sham_should_drop_packet (loss_rate conn) w of
                   (True, w1) \<Rightarrow> (NoPacket (-1), conn, w1)
                 | (False, w1) \<Rightarrow>
                     (let conn1 = (if peer_len conn = 0
                                   then conn\<lparr>peer_addr := from_addr, peer_len := 16\<rparr>
                                   else conn);
                          hdr = \<lparr>seq_num = ntohl (load_u32 buffer 0),
                                 ack_num = ntohl (load_u32 buffer 4),
                                 flags = ntohs (load_u16 buffer 8),
                                 window_size = ntohs (load_u16 buffer 10)\<rparr>;
                          pkt = \<lparr>header = hdr, data = drop SHAM_HEADER_SIZE buffer,
                                 data_len = received - SHAM_HEADER_SIZE\<rparr>
                      in (GotPacket (int received) pkt, conn1, w1)))))"

text \<open>
  \<^verbatim>\<open>sham_recv_packet_timeout\<close>: \<^verbatim>\<open>select\<close> first, whose result (0 on a timeout, \<open>-1\<close>
  on an error) is returned when it is not positive.
\<close>

definition sham_recv_packet_timeout ::
  "sham_connection \<Rightarrow> world \<Rightarrow> recv_outcome \<times> sham_connection \<times> world" where
  "sham_recv_packet_timeout conn w =
     (let w1 = w\<lparr>net_pos := net_pos w + 1\<rparr>
      in case net_script w (net_pos w) of
           SelTimeout \<Rightarrow> (NoPacket 0, conn, w1)
         | SelError \<Rightarrow> (NoPacket (-1), conn, w1)
         | SelReady rr \<Rightarrow> sham_recv_packet conn rr w1)"

section \<open>Flow control (sham.c)\<close>

text \<open>
  \<open>bytes_in_flight\<close> and \<open>available_window\<close> are the two locals of
  \<^verbatim>\<open>sham_can_send_data\<close>, both \<^verbatim>\<open>uint32_t\<close>.
\<close>

definition bytes_in_flight :: "sham_connection \<Rightarrow> 32 word" where
  "bytes_in_flight conn =
     (if last_byte_sent conn \<ge> last_byte_acked conn
      then last_byte_sent conn - last_byte_acked conn else 0)"

definition available_window :: "sham_connection \<Rightarrow> 32 word" where
  "available_window conn =
     (if ucast (peer_window_size conn) > bytes_in_flight conn
      then ucast (peer_window_size conn) - bytes_in_flight conn else 0)"

definition sham_can_send_data :: "sham_connection \<Rightarrow> nat \<Rightarrow> bool" where
  "sham_can_send_data conn dlen \<longleftrightarrow> dlen \<le> unat (available_window conn)"

definition sham_update_flow_control :: "sham_connection \<Rightarrow> nat \<Rightarrow> sham_connection" where
  "sham_update_flow_control conn bytes_sent =
     conn\<lparr>last_byte_sent := last_byte_sent conn + of_nat bytes_sent\<rparr>"

text \<open>
  \<^verbatim>\<open>sham_update_recv_buffer\<close>: the sum is stored back into the \<^verbatim>\<open>uint16_t\<close> counter;
  the comparison with \<open>freed\<close> is made on \<^verbatim>\<open>int\<close>.
\<close>

definition sham_update_recv_buffer :: "sham_connection \<Rightarrow> int \<Rightarrow> sham_connection" where
  "sham_update_recv_buffer conn bytes_consumed =
     (if bytes_consumed > 0
      then conn\<lparr>recv_buffer_used := recv_buffer_used conn + word_of_int bytes_consumed\<rparr>
      else if bytes_consumed < 0
      then (let freed = - bytes_consumed
            in if uint (recv_buffer_used conn) \<ge> freed
               then conn\<lparr>recv_buffer_used := recv_buffer_used conn - word_of_int freed\<rparr>
               else conn\<lparr>recv_buffer_used := 0\<rparr>)
      else conn)"

section \<open>Timers (sham.c)\<close>

text \<open>
  \<^verbatim>\<open>sham_is_timeout\<close> reads the clock itself; the division of the microsecond
  difference truncates towards zero.
\<close>

definition sham_is_timeout :: "timeval \<Rightarrow> int \<Rightarrow> world \<Rightarrow> bool \<times> world" where
  "sham_is_timeout start timeout_ms w =
     (case gettimeofday w of
        (now, w1) \<Rightarrow>
          (let elapsed = (tv_sec now - tv_sec start) * 1000
                         + (tv_usec now - tv_usec start) sdiv 1000
           in (elapsed \<ge> timeout_ms, w1)))"

section \<open>Sender (sham.c)\<close>

text \<open>
  The cumulative-acknowledgment loop of \<^verbatim>\<open>sham_process_ack\<close>. The indices
  \<open>window_start\<close> and \<open>window_count\<close> are never negative, where \<^verbatim>\<open>%\<close> is \<open>mod\<close>.
\<close>

function ack_window_loop :: "32 word \<Rightarrow> sham_connection \<Rightarrow> sham_connection" where
  "ack_window_loop ackn conn =
     (if window_count conn > 0
      then (let entry = send_window conn ! nat (window_start conn);
                packet_end = ntohl (seq_num (header (packet entry)))
                             + of_nat (data_len (packet entry))
            in if packet_end \<le> ackn
               then ack_window_loop ackn
                      (conn\<lparr>send_window := (send_window conn)
                                [nat (window_start conn) := entry\<lparr>acked := True\<rparr>],
                            send_base := packet_end,
                            window_start := (window_start conn + 1) mod SHAM_WINDOW_SIZE,
                            window_count := window_count conn - 1\<rparr>)
               else conn)
      else conn)"
  by pat_completeness auto
termination
  by (relation "measure (\<lambda>(ackn, conn). nat (window_count conn))") auto

declare ack_window_loop.simps [simp del]

text \<open>\<^verbatim>\<open>sham_process_ack\<close>; it always returns 0, which is left out.\<close>

definition sham_process_ack :: "sham_connection \<Rightarrow> sham_packet \<Rightarrow> sham_connection" where
  "sham_process_ack conn ack_packet =
     (let ackn = ack_num (header ack_packet);
          peer_window = window_size (header ack_packet);
          c1 = conn\<lparr>peer_window_size := peer_window\<rparr>;
          c2 = (if ackn > last_byte_acked c1 then c1\<lparr>last_byte_acked := ackn\<rparr> else c1)
      in ack_window_loop ackn c2)"

text \<open>The \<^verbatim>\<open>for\<close> loop of \<^verbatim>\<open>sham_handle_timeout\<close>, from index \<open>i\<close> on.\<close>

function timeout_loop ::
  "timeval \<Rightarrow> int \<Rightarrow> sham_connection \<Rightarrow> world \<Rightarrow> int \<times> sham_connection \<times> world" where
  "timeout_loop now i conn w =
     (if i < window_count conn
      then (let idx = nat ((window_start conn + i) mod SHAM_WINDOW_SIZE);
                entry = send_window conn ! idx
            in if acked entry then timeout_loop now (i + 1) conn w
               else (case sham_is_timeout (send_time entry) SHAM_RTO_MS w of
                       (False, w1) \<Rightarrow> timeout_loop now (i + 1) conn w1
                     | (True, w1) \<Rightarrow>
                         if retries entry \<ge> SHAM_MAX_RETRIES then (-1, conn, w1)
                         else (case sham_send_packet conn (packet entry) w1 of
                                 (r, w2) \<Rightarrow>
                                   if r < 0 then (-1, conn, w2)
                                   else timeout_loop now (i + 1)
                                          (conn\<lparr>send_window := (send_window conn)
                                             [idx := entry\<lparr>retries := retries entry + 1,
                                                            send_time := now\<rparr>]\<rparr>) w2)))
      else (0, conn, w))"
  by pat_completeness auto
termination
  by (relation "measure (\<lambda>(now, i, conn, w). nat (window_count conn - i))") auto

declare timeout_loop.simps [simp del]

definition sham_handle_timeout ::
  "sham_connection \<Rightarrow> world \<Rightarrow> int \<times> sham_connection \<times> world" where
  "sham_handle_timeout conn w =
     (case gettimeofday w of (now, w1) \<Rightarrow> timeout_loop now 0 conn w1)"

text \<open>
  \<^verbatim>\<open>sham_send\<close>. Its loops can run for ever, so each takes fuel and \<open>None\<close> means that
  the fuel ran out. The script of the environment says what each wait on the socket
  returns, whatever its timeout; sleeping changes nothing.

  First the inner loop that takes in the acknowledgments already there.
\<close>

fun drain_acks :: "nat \<Rightarrow> sham_connection \<Rightarrow> world \<Rightarrow> (sham_connection \<times> world) option" where
  "drain_acks 0 conn w = None"
| "drain_acks (Suc n) conn w =
     (case sham_recv_packet_timeout conn w of
        (GotPacket r ack_packet, c1, w1) \<Rightarrow>
          if r > 0
          then drain_acks n
                 (if flags (header ack_packet) AND SHAM_ACK \<noteq> 0
                  then sham_process_ack c1 ack_packet else c1) w1
          else Some (c1, w1)
      | (NoPacket r, c1, w1) \<Rightarrow> Some (c1, w1))"

text \<open>
  Lines 502 to 523: one segment of \<open>chunk_size\<close> bytes is built, transmitted and put
  into the send window. \<open>Inl\<close>: \<^verbatim>\<open>sham_send_packet\<close> failed.
\<close>

definition send_segment ::
  "sham_connection \<Rightarrow> 8 word list \<Rightarrow> nat \<Rightarrow> nat \<Rightarrow> world
     \<Rightarrow> world + sham_connection \<times> world" where
  "send_segment conn dat bytes_sent chunk_size w =
     (let data_packet = sham_create_packet_with_conn conn (send_seq conn) (recv_seq conn) 0
                          (Some (drop bytes_sent dat)) chunk_size
      in case sham_send_packet conn data_packet w of
           (r, w1) \<Rightarrow>
             if r < 0 then Inl w1
             else (let c1 = sham_update_flow_control conn chunk_size;
                       window_idx = nat ((window_start c1 + window_count c1)
                                         mod SHAM_WINDOW_SIZE)
                   in case gettimeofday w1 of
                        (now, w2) \<Rightarrow>
                          Inr (c1\<lparr>send_window := (send_window c1)
                                    [window_idx := \<lparr>packet = data_packet, send_time = now,
                                                    retries = 0, acked = False\<rparr>],
                                  window_count := window_count c1 + 1,
                                  send_seq := send_seq c1 + of_nat chunk_size\<rparr>, w2)))"

text \<open>
  One round of the loop \<^verbatim>\<open>while (bytes_sent < len)\<close>, lines 468 to 523; \<open>len\<close> is
  the length of \<open>dat\<close>. The round ends with a \<^verbatim>\<open>continue\<close> (\<open>StepWait\<close>), with a
  segment of so many bytes sent (\<open>StepSent\<close>), or with \<^verbatim>\<open>return -1\<close> (\<open>StepFailed\<close>).
  The value \<^verbatim>\<open>sham_handle_timeout\<close> returns is not looked at.
\<close>

datatype step_result =
    StepWait sham_connection world
  | StepSent sham_connection world nat
  | StepFailed sham_connection world

definition send_step ::
  "nat \<Rightarrow> sham_connection \<Rightarrow> 8 word list \<Rightarrow> nat \<Rightarrow> world \<Rightarrow> step_result option" where
  "send_step n conn dat bytes_sent w =
     (case drain_acks n conn w of
        None \<Rightarrow> None
      | Some (c1, w1) \<Rightarrow>
          (case sham_handle_timeout c1 w1 of
             (t, c2, w2) \<Rightarrow>
               if window_count c2 \<ge> SHAM_WINDOW_SIZE then Some (StepWait c2 w2)
               else (let chunk_size =
                           (if length dat - bytes_sent > SHAM_MAX_DATA_SIZE
                            then SHAM_MAX_DATA_SIZE else length dat - bytes_sent)
                     in if \<not> sham_can_send_data c2 chunk_size then Some (StepWait c2 w2)
                        else (case send_segment c2 dat bytes_sent chunk_size w2 of
                                Inl w3 \<Rightarrow> Some (StepFailed c2 w3)
                              | Inr (c3, w3) \<Rightarrow> Some (StepSent c3 w3 chunk_size)))))"

datatype send_phase = SendFailed sham_connection world | SendDone sham_connection world nat

fun send_loop ::
  "nat \<Rightarrow> sham_connection \<Rightarrow> 8 word list \<Rightarrow> nat \<Rightarrow> world \<Rightarrow> send_phase option" where
  "send_loop 0 conn dat bytes_sent w = None"
| "send_loop (Suc n) conn dat bytes_sent w =
     (if bytes_sent < length dat
      then (case send_step n conn dat bytes_sent w of
              None \<Rightarrow> None
            | Some (StepWait c1 w1) \<Rightarrow> send_loop n c1 dat bytes_sent w1
            | Some (StepSent c1 w1 chunk_size) \<Rightarrow>
                send_loop n c1 dat (bytes_sent + chunk_size) w1
            | Some (StepFailed c1 w1) \<Rightarrow> Some (SendFailed c1 w1))
      else Some (SendDone conn w bytes_sent))"

text \<open>The loop \<^verbatim>\<open>while (conn->window_count > 0)\<close>.\<close>

fun wait_acks :: "nat \<Rightarrow> sham_connection \<Rightarrow> world \<Rightarrow> (sham_connection \<times> world) option" where
  "wait_acks 0 conn w = None"
| "wait_acks (Suc n) conn w =
     (if window_count conn > 0
      then (case sham_recv_packet_timeout conn w of
              (res, c1, w1) \<Rightarrow>
                (let c2 = (case res of
                             GotPacket r ack_packet \<Rightarrow>
                               if r > 0 \<and> flags (header ack_packet) AND SHAM_ACK \<noteq> 0
                               then sham_process_ack c1 ack_packet else c1
                           | NoPacket r \<Rightarrow> c1)
                 in case sham_handle_timeout c2 w1 of
                      (t, c3, w2) \<Rightarrow> wait_acks n c3 w2))
      else Some (conn, w))"

text \<open>
  \<^verbatim>\<open>sham_send\<close> returns \<^verbatim>\<open>bytes_sent\<close>, a \<^verbatim>\<open>size_t\<close>, as an \<^verbatim>\<open>int\<close> of 32 bits.
\<close>

definition sham_send ::
  "nat \<Rightarrow> sham_connection \<Rightarrow> 8 word list \<Rightarrow> world
     \<Rightarrow> (int \<times> sham_connection \<times> world) option" where
  "sham_send fuel conn dat w =
     (if state conn \<noteq> SHAM_ESTABLISHED then Some (-1, conn, w)
      else (case send_loop fuel conn dat 0 w of
              None \<Rightarrow> None
            | Some (SendFailed c1 w1) \<Rightarrow> Some (-1, c1, w1)
            | Some (SendDone c1 w1 bytes_sent) \<Rightarrow>
                (case wait_acks fuel c1 w1 of
                   None \<Rightarrow> None
                 | Some (c2, w2) \<Rightarrow>
                     Some (sint (word_of_nat bytes_sent :: 32 word), c2, w2))))"

section \<open>Receiver (sham.c)\<close>

text \<open>The first slot of the out-of-order buffer that is not valid, if any.\<close>

fun ooo_free_slot :: "sham_ooo_entry list \<Rightarrow> nat option" where
  "ooo_free_slot [] = None"
| "ooo_free_slot (e # es) =
     (if \<not> valid e then Some 0 else map_option Suc (ooo_free_slot es))"

definition sham_buffer_ooo_packet ::
  "sham_connection \<Rightarrow> sham_packet \<Rightarrow> int \<times> sham_connection" where
  "sham_buffer_ooo_packet conn pkt =
     (case ooo_free_slot (ooo_buffer conn) of
        Some i \<Rightarrow> (0, conn\<lparr>ooo_buffer := (ooo_buffer conn)
                                 [i := \<lparr>ooo_packet = pkt, valid = True\<rparr>]\<rparr>)
      | None \<Rightarrow> (-1, conn))"

text \<open>The first valid slot whose sequence number is \<open>s\<close>: the inner \<^verbatim>\<open>for\<close> loop.\<close>

fun ooo_find :: "32 word \<Rightarrow> sham_ooo_entry list \<Rightarrow> nat option" where
  "ooo_find s [] = None"
| "ooo_find s (e # es) =
     (if valid e \<and> seq_num (header (ooo_packet e)) = s then Some 0
      else map_option Suc (ooo_find s es))"

text \<open>
  \<^verbatim>\<open>sham_deliver_ooo_packets\<close>. The application buffer is the list \<open>out\<close> of the bytes
  written so far (\<^verbatim>\<open>*buffer_pos\<close> is its length) and its capacity \<open>buffer_size\<close>.
\<close>

function sham_deliver_ooo_packets ::
  "sham_connection \<Rightarrow> 8 word list \<Rightarrow> nat \<Rightarrow> sham_connection \<times> 8 word list" where
  "sham_deliver_ooo_packets conn out buffer_size =
     (case ooo_find (recv_seq conn) (ooo_buffer conn) of
        None \<Rightarrow> (conn, out)
      | Some i \<Rightarrow>
          (let e = ooo_buffer conn ! i;
               dl = data_len (ooo_packet e);
               copy_len = (if dl > buffer_size - length out
                           then buffer_size - length out else dl)
           in sham_deliver_ooo_packets
                (conn\<lparr>recv_seq := recv_seq conn + of_nat dl,
                      ooo_buffer := (ooo_buffer conn)[i := e\<lparr>valid := False\<rparr>]\<rparr>)
                (out @ take copy_len (data (ooo_packet e))) buffer_size))"
  by pat_completeness auto
termination
proof (relation "measure (\<lambda>(conn, out, n). length (filter valid (ooo_buffer conn)))")
  show "wf (measure (\<lambda>(conn, out, n). length (filter valid (ooo_buffer conn))))"
    by simp
next
  fix conn :: sham_connection and out :: "8 word list" and buffer_size i :: nat
    and e dl copy_len
  assume found: "ooo_find (recv_seq conn) (ooo_buffer conn) = Some i"
    and e: "e = ooo_buffer conn ! i"
  have find_valid: "ooo_find s es = Some j \<Longrightarrow> j < length es \<and> valid (es ! j)"
    for s es j
    by (induction es arbitrary: j) (auto split: if_splits)
  have drop_one: "j < length es \<Longrightarrow> valid (es ! j) \<Longrightarrow>
      length (filter valid (es[j := (es ! j)\<lparr>valid := False\<rparr>])) < length (filter valid es)"
    for es :: "sham_ooo_entry list" and j
  proof (induction es arbitrary: j)
    case Nil
    then show ?case by simp
  next
    case (Cons a es)
    then show ?case by (cases j) (auto simp: Suc_le_eq)
  qed
  from find_valid [OF found] drop_one e
  show "((conn\<lparr>recv_seq := recv_seq conn + word_of_nat dl,
               ooo_buffer := (ooo_buffer conn)[i := e\<lparr>valid := False\<rparr>]\<rparr>,
          out @ take copy_len (data (ooo_packet e)), buffer_size),
         conn, out, buffer_size)
        \<in> measure (\<lambda>(conn, out, n). length (filter valid (ooo_buffer conn)))"
    by simp
qed

declare sham_deliver_ooo_packets.simps [simp del]

text \<open>
  Lines 572 to 601 of \<^verbatim>\<open>sham_recv\<close>: where a segment with payload goes, by its
  sequence number.
\<close>

definition place_segment ::
  "sham_connection \<Rightarrow> sham_packet \<Rightarrow> 8 word list \<Rightarrow> nat \<Rightarrow> sham_connection \<times> 8 word list" where
  "place_segment conn pkt out len =
     (if seq_num (header pkt) = recv_seq conn
      then (let copy_len = (if data_len pkt > len - length out
                            then len - length out else data_len pkt);
                out1 = out @ take copy_len (data pkt);
                c1 = conn\<lparr>recv_seq := recv_seq conn + of_nat (data_len pkt)\<rparr>;
                c2 = sham_update_recv_buffer c1 (int (data_len pkt))
            in case sham_deliver_ooo_packets c2 out1 len of
                 (c3, out2) \<Rightarrow> (sham_update_recv_buffer c3 (- int copy_len), out2))
      else if seq_num (header pkt) > recv_seq conn
      then (snd (sham_buffer_ooo_packet conn pkt), out)
      else (conn, out))"

text \<open>
  Lines 570 to 607: what is done with one packet that arrived while fewer than \<open>len\<close>
  bytes have been received. A packet with payload is placed and acknowledged.
\<close>

definition recv_data_packet ::
  "sham_connection \<Rightarrow> sham_packet \<Rightarrow> 8 word list \<Rightarrow> nat \<Rightarrow> world
     \<Rightarrow> sham_connection \<times> 8 word list \<times> world" where
  "recv_data_packet conn pkt out len w =
     (if data_len pkt > 0
      then (case place_segment conn pkt out len of
              (c4, out3) \<Rightarrow>
                (let ack = sham_create_packet_with_conn c4 (send_seq c4) (recv_seq c4)
                             SHAM_ACK None 0
                 in (c4, out3, snd (sham_send_packet c4 ack w))))
      else (conn, out, w))"

fun recv_loop ::
  "nat \<Rightarrow> sham_connection \<Rightarrow> 8 word list \<Rightarrow> nat \<Rightarrow> world
     \<Rightarrow> (sham_connection \<times> 8 word list \<times> world) option" where
  "recv_loop 0 conn out len w = None"
| "recv_loop (Suc n) conn out len w =
     (if length out < len
      then (case sham_recv_packet_timeout conn w of
              (GotPacket r pkt, c1, w1) \<Rightarrow>
                if r \<le> 0 then Some (c1, out, w1)
                else (case recv_data_packet c1 pkt out len w1 of
                        (c2, out1, w2) \<Rightarrow> recv_loop n c2 out1 len w2)
            | (NoPacket r, c1, w1) \<Rightarrow> Some (c1, out, w1))
      else Some (conn, out, w))"

text \<open>
  \<^verbatim>\<open>sham_recv\<close> with a buffer of \<open>len\<close> bytes: the value returned, the connection, the
  bytes written to the buffer and the environment.
\<close>

definition sham_recv ::
  "nat \<Rightarrow> sham_connection \<Rightarrow> nat \<Rightarrow> world
     \<Rightarrow> (int \<times> sham_connection \<times> 8 word list \<times> world) option" where
  "sham_recv fuel conn len w =
     (if state conn \<noteq> SHAM_ESTABLISHED then Some (-1, conn, [], w)
      else (case recv_loop fuel conn [] len w of
              None \<Rightarrow> None
            | Some (c1, out, w1) \<Rightarrow>
                Some (sint (word_of_nat (length out) :: 32 word), c1, out, w1)))"

section \<open>Opening and closing (sham.c)\<close>

text \<open>
  \<^verbatim>\<open>sham_connect\<close>. \<open>sock\<close> is what \<^verbatim>\<open>sham_socket\<close> returns if it is called, \<open>host\<close> the
  address \<^verbatim>\<open>gethostbyname\<close> found, if any.
\<close>

definition sham_connect ::
  "sham_connection \<Rightarrow> int \<Rightarrow> nat option \<Rightarrow> world \<Rightarrow> int \<times> sham_connection \<times> world" where
  "sham_connect conn sock host w =
     (if state conn \<noteq> SHAM_CLOSED then (-1, conn, w)
      else (let c1 = (if sockfd conn < 0 then conn\<lparr>sockfd := sock\<rparr> else conn)
            in if sockfd c1 < 0 then (-1, c1, w)
               else (case host of
                       None \<Rightarrow> (-1, c1, w)
                     | Some addr \<Rightarrow>
                         (let c2 = c1\<lparr>peer_addr := addr, peer_len := 16\<rparr>;
                              syn = sham_create_packet_with_conn c2 (send_seq c2) 0
                                      SHAM_SYN None 0
                          in case sham_send_packet c2 syn w of
                               (r, w1) \<Rightarrow>
                                 if r < 0 then (-1, c2, w1)
                                 else (case sham_recv_packet_timeout
                                              (c2\<lparr>state := SHAM_SYN_SENT\<rparr>) w1 of
                                         (NoPacket r1, c3, w2) \<Rightarrow>
                                           (-1, c3\<lparr>state := SHAM_CLOSED\<rparr>, w2)
                                       | (GotPacket r1 syn_ack, c3, w2) \<Rightarrow>
                                           if r1 \<le> 0
                                           then (-1, c3\<lparr>state := SHAM_CLOSED\<rparr>, w2)
                                           else if flags (header syn_ack)
                                                     AND (SHAM_SYN OR SHAM_ACK)
                                                   \<noteq> (SHAM_SYN OR SHAM_ACK)
                                                 \<or> ack_num (header syn_ack) \<noteq> send_seq c3 + 1
                                           then (-1, c3\<lparr>state := SHAM_CLOSED\<rparr>, w2)
                                           else (let c4 = c3\<lparr>recv_seq :=
                                                               seq_num (header syn_ack) + 1,
                                                             send_seq := send_seq c3 + 1\<rparr>;
                                                     ack = sham_create_packet_with_conn c4
                                                             (send_seq c4) (recv_seq c4)
                                                             SHAM_ACK None 0
                                                 in case sham_send_packet c4 ack w2 of
                                                      (r2, w3) \<Rightarrow>
                                                        if r2 < 0
                                                        then (-1, c4\<lparr>state := SHAM_CLOSED\<rparr>, w3)
                                                        else (0, c4\<lparr>state := SHAM_ESTABLISHED,
                                                                   send_base := send_seq c4\<rparr>,
                                                              w3)))))))"

text \<open>
  The loop of \<^verbatim>\<open>sham_close\<close>, with fuel: nothing bounds the number of its rounds.
\<close>

fun close_loop ::
  "nat \<Rightarrow> bool \<Rightarrow> bool \<Rightarrow> sham_connection \<Rightarrow> world \<Rightarrow> (sham_connection \<times> world) option" where
  "close_loop 0 ack_received fin_received conn w = None"
| "close_loop (Suc n) ack_received fin_received conn w =
     (if (\<not> ack_received \<or> \<not> fin_received) \<and> state conn \<noteq> SHAM_CLOSED
      then (case sham_recv_packet_timeout conn w of
              (NoPacket r, c1, w1) \<Rightarrow> close_loop n ack_received fin_received c1 w1
            | (GotPacket r pkt, c1, w1) \<Rightarrow>
                if r \<le> 0 then close_loop n ack_received fin_received c1 w1
                else (let got_ack = (flags (header pkt) AND SHAM_ACK \<noteq> 0 \<and> \<not> ack_received);
                          c2 = (if got_ack then c1\<lparr>state := SHAM_FIN_WAIT_2\<rparr> else c1);
                          ack_received1 = (ack_received \<or> got_ack)
                      in if flags (header pkt) AND SHAM_FIN \<noteq> 0 \<and> \<not> fin_received
                         then (let c3 = c2\<lparr>recv_seq := seq_num (header pkt) + 1\<rparr>;
                                   final_ack = sham_create_packet (send_seq c3) (recv_seq c3)
                                                 SHAM_ACK None 0;
                                   w2 = snd (sham_send_packet c3 final_ack w1)
                               in close_loop n ack_received1 True
                                    (c3\<lparr>state := SHAM_CLOSED\<rparr>) w2)
                         else close_loop n ack_received1 fin_received c2 w1))
      else Some (conn, w))"

definition sham_close ::
  "nat \<Rightarrow> sham_connection \<Rightarrow> world \<Rightarrow> (int \<times> sham_connection \<times> world) option" where
  "sham_close fuel conn w =
     (if state conn \<noteq> SHAM_ESTABLISHED then Some (-1, conn, w)
      else (let fin = sham_create_packet (send_seq conn) (recv_seq conn) SHAM_FIN None 0
            in case sham_send_packet conn fin w of
                 (r, w1) \<Rightarrow>
                   if r < 0 then Some (-1, conn, w1)
                   else (case close_loop fuel False False
                                (conn\<lparr>send_seq := send_seq conn + 1,
                                      state := SHAM_FIN_WAIT_1\<rparr>) w1 of
                           None \<Rightarrow> None
                         | Some (c1, w2) \<Rightarrow> Some (0, c1, w2))))"

section \<open>Concrete environments and connections\<close>

text \<open>
  An environment in which nothing arrives, every \<^verbatim>\<open>sendto\<close> succeeds and each clock
  reading is one second after the one before.
\<close>

definition quiet_world :: world where
  "quiet_world =
     \<lparr>net_script = (\<lambda>i. SelTimeout), net_pos = 0,
      rand_script = (\<lambda>i. 1), rand_pos = 0,
      clock_script = (\<lambda>i. \<lparr>tv_sec = int i, tv_usec = 0\<rparr>), clock_pos = 0,
      sendto_script = (\<lambda>i. True), sendto_pos = 0, wire = []\<rparr>"

text \<open>The script in which what the list holds happens first and nothing arrives after.\<close>

definition arrivals :: "select_result list \<Rightarrow> nat \<Rightarrow> select_result" where
  "arrivals evs i = (if i < length evs then evs ! i else SelTimeout)"

text \<open>A datagram the peer, running the same code, sends from address 7.\<close>

definition from_peer :: "sham_packet \<Rightarrow> select_result" where
  "from_peer pkt = SelReady (RecvDatagram (datagram_of pkt) 7)"

text \<open>
  The connection \<^verbatim>\<open>sham_connect\<close> leaves behind when the initial sequence number is
  1000 and the peer answers with sequence number 5000.
\<close>

definition est_conn :: sham_connection where
  "est_conn =
     fst (snd (sham_connect (sham_create_connection 1000) 3 (Some 7)
       (quiet_world\<lparr>net_script :=
          arrivals [from_peer (sham_create_packet_with_conn (sham_create_connection 5000)
                      5000 1001 (SHAM_SYN OR SHAM_ACK) None 0)]\<rparr>)))"

text \<open>
  The peer sends the segment after the next one twice, then the next one: one byte each.
\<close>

definition dup_world :: world where
  "dup_world =
     quiet_world\<lparr>net_script := arrivals
       [from_peer (sham_create_packet 5002 1001 0 (Some [66]) 1),
        from_peer (sham_create_packet 5002 1001 0 (Some [66]) 1),
        from_peer (sham_create_packet 5001 1001 0 (Some [65]) 1)]\<rparr>"

text \<open>The peer sends full segments in order, one after the other.\<close>

definition segs_world :: world where
  "segs_world =
     quiet_world\<lparr>net_script :=
       (\<lambda>i. from_peer (sham_create_packet (5001 + 1024 * of_nat i) 1001 0
                          (Some (replicate 1024 0)) 1024))\<rparr>"

text \<open>The peer answers the close with one packet that carries FIN and ACK.\<close>

definition fin_world :: world where
  "fin_world =
     quiet_world\<lparr>net_script := arrivals
       [from_peer (sham_create_packet_with_conn (sham_create_connection 5000)
                     5001 1002 (SHAM_FIN OR SHAM_ACK) None 0)]\<rparr>"

text \<open>
  Nothing arrives until the eighth wait on the socket, which brings the acknowledgment
  of sequence number 1002.
\<close>

definition late_ack_world :: world where
  "late_ack_world =
     quiet_world\<lparr>net_script :=
       (\<lambda>i. if i = 7
            then from_peer (sham_create_packet_with_conn (sham_create_connection 5000)
                              5001 1002 SHAM_ACK None 0)
            else SelTimeout)\<rparr>"

text \<open>
  The third wait on the socket brings an acknowledgment of nothing new from a receiver
  whose buffer is full: \<^verbatim>\<open>sham_calculate_advertised_window\<close> gives 1024 there.
\<close>

definition shrink_world :: world where
  "shrink_world =
     quiet_world\<lparr>net_script :=
       (\<lambda>i. if i = 2
            then from_peer (sham_create_packet_with_conn
                              ((sham_create_connection 5000)\<lparr>recv_buffer_used := 32768\<rparr>)
                              5001 1001 SHAM_ACK None 0)
            else SelTimeout)\<rparr>"

text \<open>The acknowledgment of sequence number 1002 arrives at the second wait on the socket.\<close>

definition prompt_ack_world :: world where
  "prompt_ack_world =
     quiet_world\<lparr>net_script :=
       (\<lambda>i. if i = 1
            then from_peer (sham_create_packet_with_conn (sham_create_connection 5000)
                              5001 1002 SHAM_ACK None 0)
            else SelTimeout)\<rparr>"

text \<open>
  Every other wait on the socket, starting with the first, brings an acknowledgment of
  everything (sequence number 2^32 - 1); the waits in between time out.
\<close>

definition ack_all_world :: world where
  "ack_all_world =
     quiet_world\<lparr>net_script :=
       (\<lambda>i. if even i
            then from_peer (sham_create_packet_with_conn (sham_create_connection 5000)
                              5001 4294967295 SHAM_ACK None 0)
            else SelTimeout)\<rparr>"

text \<open>
  The peer's second segment of three bytes overtakes the first.
\<close>

definition gap_world :: world where
  "gap_world =
     quiet_world\<lparr>net_script := arrivals
       [from_peer (sham_create_packet 5004 1001 0 (Some [68, 69, 70]) 3),
        from_peer (sham_create_packet 5001 1001 0 (Some [65, 66, 67]) 3)]\<rparr>"

text \<open>
  A connection whose sequence numbers are about to wrap around: the initial sequence
  number is 2^32 - 2, so the first byte sent has the number 2^32 - 1 and the second the
  number 0. Any connection comes to these numbers once enough bytes have been sent.
\<close>

definition wrap_conn :: sham_connection where
  "wrap_conn =
     fst (snd (sham_connect (sham_create_connection 4294967294) 3 (Some 7)
       (quiet_world\<lparr>net_script :=
          arrivals [from_peer (sham_create_packet_with_conn (sham_create_connection 5000)
                      5000 4294967295 (SHAM_SYN OR SHAM_ACK) None 0)]\<rparr>)))"

text \<open>
  The second wait on the socket brings the acknowledgment of two bytes sent from
  sequence number 2^32 - 1: its value is 1.
\<close>

definition wrap_ack_world :: world where
  "wrap_ack_world =
     quiet_world\<lparr>net_script :=
       (\<lambda>i. if i = 1
            then from_peer (sham_create_packet_with_conn (sham_create_connection 5000)
                              5001 1 SHAM_ACK None 0)
            else SelTimeout)\<rparr>"

text \<open>The sender after \<^verbatim>\<open>sham_send\<close> has transmitted one byte: one segment is in flight.\<close>

definition in_flight_conn :: sham_connection where
  "in_flight_conn = fst (projr (send_segment est_conn [65] 0 1 quiet_world))"

text \<open>The application calls \<^verbatim>\<open>sham_recv\<close> \<open>k\<close> times with a buffer of \<open>len\<close> bytes.\<close>

fun recv_calls ::
  "nat \<Rightarrow> nat \<Rightarrow> sham_connection \<Rightarrow> nat \<Rightarrow> world \<Rightarrow> (sham_connection \<times> world) option" where
  "recv_calls fuel 0 conn len w = Some (conn, w)"
| "recv_calls fuel (Suc k) conn len w =
     (case sham_recv fuel conn len w of
        None \<Rightarrow> None
      | Some (r, c1, out, w1) \<Rightarrow> recv_calls fuel k c1 len w1)"

section \<open>Invariants\<close>

text \<open>No valid slot of the out-of-order buffer holds the segment that is expected next.\<close>

definition ooo_ok :: "sham_connection \<Rightarrow> bool" where
  "ooo_ok conn \<longleftrightarrow>
     list_all (\<lambda>e. valid e \<longrightarrow> seq_num (header (ooo_packet e)) \<noteq> recv_seq conn)
       (ooo_buffer conn)"

text \<open>
  The bytes of the segments that were valid in the out-of-order buffer \<open>before\<close> and
  are no longer valid in the buffer \<open>after\<close>: what \<^verbatim>\<open>sham_deliver_ooo_packets\<close>
  has released in between.
\<close>

definition released :: "sham_ooo_entry list \<Rightarrow> sham_ooo_entry list \<Rightarrow> nat" where
  "released before after =
     sum_list (map (\<lambda>i. if valid (before ! i) \<and> \<not> valid (after ! i)
                        then data_len (ooo_packet (before ! i)) else 0)
                [0 ..< length before])"

text \<open>
  The sequence number just past a segment kept in the send window, as
  \<^verbatim>\<open>sham_process_ack\<close> computes it (\<open>packet_end\<close>).
\<close>

definition entry_end :: "sham_window_entry \<Rightarrow> 32 word" where
  "entry_end e = ntohl (seq_num (header (packet e))) + of_nat (data_len (packet e))"

text \<open>The entries of the send window that are in use, oldest first.\<close>

definition window_entries :: "sham_connection \<Rightarrow> sham_window_entry list" where
  "window_entries conn =
     map (\<lambda>i. send_window conn ! nat ((window_start conn + int i) mod SHAM_WINDOW_SIZE))
       [0 ..< nat (window_count conn)]"

text \<open>
  Every segment in the send window starts at or after \<open>send_base\<close> and ends before the
  sequence numbers wrap around.
\<close>

definition window_ahead :: "sham_connection \<Rightarrow> bool" where
  "window_ahead conn \<longleftrightarrow>
     0 \<le> window_start conn \<and> window_start conn < SHAM_WINDOW_SIZE
     \<and> list_all (\<lambda>e. send_base conn \<le> ntohl (seq_num (header (packet e)))
                     \<and> unat (ntohl (seq_num (header (packet e)))) + data_len (packet e)
                         < 2 ^ 32)
         (window_entries conn)"

text \<open>
  The send window is a ring of ten entries within its bounds, and what was sent last
  ends at \<open>send_seq\<close>: the newest entry when there is one, \<open>send_base\<close> itself otherwise.
  \<^verbatim>\<open>sham_connect\<close> and \<^verbatim>\<open>sham_accept\<close> establish this and the sender keeps it.
\<close>

definition send_ok :: "sham_connection \<Rightarrow> bool" where
  "send_ok conn \<longleftrightarrow>
     length (send_window conn) = 10
     \<and> 0 \<le> window_start conn \<and> window_start conn < SHAM_WINDOW_SIZE
     \<and> 0 \<le> window_count conn \<and> window_count conn \<le> SHAM_WINDOW_SIZE
     \<and> (if window_count conn = 0 then send_base conn = send_seq conn
         else entry_end (send_window conn
                ! nat ((window_start conn + window_count conn - 1) mod SHAM_WINDOW_SIZE))
              = send_seq conn)"

text \<open>The sender between two rounds while everything it sends is acknowledged at once.\<close>

definition ack_all_state :: "sham_connection \<Rightarrow> world \<Rightarrow> bool" where
  "ack_all_state conn w \<longleftrightarrow>
     state conn = SHAM_ESTABLISHED \<and> send_ok conn \<and> window_count conn \<le> 1
     \<and> loss_rate conn \<le> 0
     \<and> net_script w = net_script ack_all_world \<and> even (net_pos w)
     \<and> sendto_script w = (\<lambda>i. True)"

text \<open>The receiver after \<open>j\<close> calls that each took one byte of a full segment.\<close>

definition trunc_state :: "nat \<Rightarrow> sham_connection \<Rightarrow> world \<Rightarrow> bool" where
  "trunc_state j conn w \<longleftrightarrow>
     state conn = SHAM_ESTABLISHED \<and> recv_seq conn = 5001 + 1024 * of_nat j
     \<and> unat (recv_buffer_used conn) = 1023 * j \<and> recv_buffer_size conn = 32768
     \<and> list_all (\<lambda>e. \<not> valid e) (ooo_buffer conn) \<and> loss_rate conn \<le> 0
     \<and> net_script w = net_script segs_world \<and> net_pos w = j"

section \<open>Properties of packet creation\<close>

lemma htons_htons: "htons (htons x) = x"
  unfolding htons_def by (rule bit_word_eqI) (auto simp add: bit_simps)

lemma htonl_bit:
  "bit (htonl x) n \<longleftrightarrow>
     (if n < 8 then bit x (n + 24) else if n < 16 then bit x (n + 8)
      else if n < 24 then bit x (n - 8) else if n < 32 then bit x (n - 24) else False)"
  unfolding htonl_def
  by (auto simp: bit_simps ac_simps dest: bit_imp_le_length)

lemma htonl_htonl: "htonl (htonl x) = x"
  by (rule bit_word_eqI) (auto simp add: htonl_bit)

lemma ntohl_htonl [simp]: "ntohl (htonl x) = x"
  by (simp add: ntohl_def htonl_htonl)

lemma ntohs_htons [simp]: "ntohs (htons x) = x"
  by (simp add: ntohs_def htons_htons)

text \<open>
  C10. \<^verbatim>\<open>sham_create_packet\<close>, and with it \<^verbatim>\<open>sham_create_packet_with_conn\<close>, called
  with a payload length above 1024 or with a null payload pointer, returns a packet whose
  \<open>data_len\<close> is 0 and whose payload is empty: the payload is neither rejected nor cut
  to 1024 bytes.
\<close>

theorem create_packet_oversize_or_null_empty:
  "dlen > SHAM_MAX_DATA_SIZE \<or> dat = None \<Longrightarrow>
     data_len (sham_create_packet seq ack fl dat dlen) = 0
   \<and> data (sham_create_packet seq ack fl dat dlen) = []
   \<and> data_len (sham_create_packet_with_conn conn seq ack fl dat dlen) = 0
   \<and> data (sham_create_packet_with_conn conn seq ack fl dat dlen) = []"
  by (auto simp: sham_create_packet_def sham_create_packet_with_conn_def Let_def
           split: option.splits)

theorem create_packet_oversize_or_null_empty_witness:
  "(1025 > SHAM_MAX_DATA_SIZE \<or> Some (replicate 1025 (7 :: 8 word)) = None)
   \<and> data_len (sham_create_packet 1 2 0 (Some (replicate 1025 7)) 1025) = 0
   \<and> data (sham_create_packet 1 2 0 (Some (replicate 1025 7)) 1025) = []
   \<and> data_len (sham_create_packet_with_conn (sham_create_connection 9) 1 2 0
        (Some (replicate 1025 7)) 1025) = 0
   \<and> data (sham_create_packet_with_conn (sham_create_connection 9) 1 2 0
        (Some (replicate 1025 7)) 1025) = []"
  using create_packet_oversize_or_null_empty
    [of 1025 "Some (replicate 1025 7)" 1 2 0 "sham_create_connection 9"]
  by simp

text \<open>
  Every packet built by \<^verbatim>\<open>sham_create_packet_with_conn\<close> carries the space left in
  the receive buffer, and never less than one full segment.
\<close>

lemma advertised_window_max:
  "sham_calculate_advertised_window conn
     = max (recv_buffer_size conn - recv_buffer_used conn) 1024"
  by (auto simp: sham_calculate_advertised_window_def Let_def max_def)

lemma with_conn_window:
  "ntohs (window_size (header (sham_create_packet_with_conn conn seq ack fl dat dlen)))
     = max (recv_buffer_size conn - recv_buffer_used conn) 1024"
  by (simp add: sham_create_packet_with_conn_def Let_def advertised_window_max)

text \<open>The definitions to unfold when a concrete run is evaluated.\<close>

lemmas eval_defs = sham_create_packet_def sham_create_packet_with_conn_def sham_calculate_advertised_window_def
  sham_send_packet_def sham_recv_packet_def sham_recv_packet_timeout_def sham_should_drop_packet_def
  load_u32_def load_u16_def store_u32_def store_u16_def datagram_of_def htonl_def htons_def ntohl_def ntohs_def
  quiet_world_def arrivals_def from_peer_def Let_def

section \<open>Encoding and decoding agree\<close>

lemma assemble_u32:
  fixes x :: "32 word"
  shows "ucast (ucast x :: 8 word) OR push_bit 8 (ucast (ucast (drop_bit 8 x) :: 8 word))
         OR push_bit 16 (ucast (ucast (drop_bit 16 x) :: 8 word))
         OR push_bit 24 (ucast (ucast (drop_bit 24 x) :: 8 word)) = x"
    (is "?lhs = x")
proof (rule bit_word_eqI)
  fix n assume n: "n < LENGTH(32)"
  consider "n < 8" | "8 \<le> n" "n < 16" | "16 \<le> n" "n < 24" | "24 \<le> n"
    by linarith
  then show "bit ?lhs n = bit x n"
    using n by cases (auto simp: bit_simps)
qed

lemma assemble_u16:
  fixes x :: "16 word"
  shows "ucast (ucast x :: 8 word) OR push_bit 8 (ucast (ucast (drop_bit 8 x) :: 8 word)) = x"
    (is "?lhs = x")
proof (rule bit_word_eqI)
  fix n assume n: "n < LENGTH(16)"
  consider "n < 8" | "8 \<le> n"
    by linarith
  then show "bit ?lhs n = bit x n"
    using n by cases (auto simp: bit_simps)
qed

lemma load_store_u32:
  "load_u32 (store_u32 x @ post) 0 = x"
  "load_u32 (store_u32 y @ store_u32 x @ post) 4 = x"
  by (simp_all add: load_u32_def store_u32_def assemble_u32)

lemma load_store_u16:
  "load_u16 (store_u32 y @ store_u32 z @ store_u16 x @ post) 8 = x"
  "load_u16 (store_u32 y @ store_u32 z @ store_u16 v @ store_u16 x @ post) 10 = x"
  by (simp_all add: load_u16_def store_u32_def store_u16_def assemble_u16)

lemma store_length [simp]:
  "length (store_u32 x) = 4" "length (store_u16 y) = 2"
  by (simp_all add: store_u32_def store_u16_def)

lemma recv_from_peer:
  assumes script: "net_script w (net_pos w) = from_peer p"
    and no_loss: "loss_rate conn \<le> 0"
    and small: "data_len p \<le> SHAM_MAX_DATA_SIZE"
    and payload: "data_len p \<le> length (data p)"
  shows "sham_recv_packet_timeout conn w =
           (GotPacket (int (SHAM_HEADER_SIZE + data_len p))
              \<lparr>header = \<lparr>seq_num = ntohl (seq_num (header p)),
                         ack_num = ntohl (ack_num (header p)),
                         flags = ntohs (flags (header p)),
                         window_size = ntohs (window_size (header p))\<rparr>,
               data = take (data_len p) (data p), data_len = data_len p\<rparr>,
            (if peer_len conn = 0 then conn\<lparr>peer_addr := 7, peer_len := 16\<rparr> else conn),
            w\<lparr>net_pos := net_pos w + 1\<rparr>)"
proof -
  let ?dg = "datagram_of p"
  have len: "length ?dg = SHAM_HEADER_SIZE + data_len p"
    using payload by (simp add: datagram_of_def)
  then have whole: "take SHAM_MAX_PACKET_SIZE ?dg = ?dg"
    using small by simp
  have loads: "load_u32 ?dg 0 = seq_num (header p)" "load_u32 ?dg 4 = ack_num (header p)"
      "load_u16 ?dg 8 = flags (header p)" "load_u16 ?dg 10 = window_size (header p)"
    by (simp_all add: datagram_of_def load_store_u32 load_store_u16)
  have rest: "drop SHAM_HEADER_SIZE ?dg = take (data_len p) (data p)"
    by (simp add: datagram_of_def)
  show ?thesis
    using script no_loss
    by (simp add: sham_recv_packet_timeout_def from_peer_def sham_recv_packet_def
          sham_should_drop_packet_def Let_def whole len loads rest)
qed


lemma est_conn_eq:
  "est_conn = (sham_create_connection 1000)\<lparr>sockfd := 3, peer_addr := 7, peer_len := 16,
     send_seq := 1001, recv_seq := 5001, send_base := 1001, state := SHAM_ESTABLISHED\<rparr>"
  by (simp add: est_conn_def sham_connect_def sham_create_connection_def eval_defs)

section \<open>Decoding a datagram\<close>

text \<open>
  Counterexample to C6 as stated: a datagram of 1037 bytes, 1025 of them payload, is not
  rejected. \<^verbatim>\<open>sham_recv_packet\<close> accepts it, returns 1036 and sets \<open>data_len\<close> to 1024,
  not to 1037 - 12.
\<close>

theorem recv_packet_oversize_accepted:
  "fst (sham_recv_packet (sham_create_connection 0) (RecvDatagram (replicate 1037 0) 7) quiet_world)
     = GotPacket 1036
         \<lparr>header = \<lparr>seq_num = 0, ack_num = 0, flags = 0, window_size = 0\<rparr>,
          data = replicate 1024 0, data_len = 1024\<rparr>"
  by (simp add: sham_create_connection_def eval_defs)

text \<open>
  C6, amended. \<^verbatim>\<open>sham_recv_packet\<close> rejects every datagram shorter than 12 bytes. It
  has no check for an oversize datagram: a datagram of at least 12 bytes is accepted
  (always when there is no simulated loss), the value returned is the smaller of the
  datagram's length and 1036, and the payload is the at most 1024 bytes that follow the
  header within the first 1036 bytes; \<open>data_len\<close> is the datagram's length minus 12 only
  up to 1036 bytes.
\<close>

theorem recv_packet_size_rule:
  "(length dgram < SHAM_HEADER_SIZE \<longrightarrow>
      fst (sham_recv_packet conn (RecvDatagram dgram a) w) = NoPacket (-1))
   \<and> (SHAM_HEADER_SIZE \<le> length dgram \<and> loss_rate conn \<le> 0 \<longrightarrow>
      (\<exists>pkt. fst (sham_recv_packet conn (RecvDatagram dgram a) w)
                = GotPacket (int (min (length dgram) SHAM_MAX_PACKET_SIZE)) pkt))
   \<and> (\<forall>r pkt. fst (sham_recv_packet conn (RecvDatagram dgram a) w) = GotPacket r pkt \<longrightarrow>
        SHAM_HEADER_SIZE \<le> length dgram
      \<and> r = int (min (length dgram) SHAM_MAX_PACKET_SIZE)
      \<and> data_len pkt = min (length dgram) SHAM_MAX_PACKET_SIZE - SHAM_HEADER_SIZE
      \<and> data_len pkt \<le> SHAM_MAX_DATA_SIZE
      \<and> data pkt = take SHAM_MAX_DATA_SIZE (drop SHAM_HEADER_SIZE dgram))"
proof (intro conjI impI allI)
  assume "length dgram < SHAM_HEADER_SIZE"
  then show "fst (sham_recv_packet conn (RecvDatagram dgram a) w) = NoPacket (-1)"
    by (simp add: sham_recv_packet_def)
next
  assume "SHAM_HEADER_SIZE \<le> length dgram \<and> loss_rate conn \<le> 0"
  then show "\<exists>pkt. fst (sham_recv_packet conn (RecvDatagram dgram a) w)
                = GotPacket (int (min (length dgram) SHAM_MAX_PACKET_SIZE)) pkt"
    by (simp add: sham_recv_packet_def sham_should_drop_packet_def Let_def min_def)
next
  fix r pkt
  assume got: "fst (sham_recv_packet conn (RecvDatagram dgram a) w) = GotPacket r pkt"
  then have len: "SHAM_HEADER_SIZE \<le> length dgram"
    by (auto simp: sham_recv_packet_def Let_def split: if_splits)
  with got have "r = int (min (length dgram) SHAM_MAX_PACKET_SIZE)
      \<and> data_len pkt = min (length dgram) SHAM_MAX_PACKET_SIZE - SHAM_HEADER_SIZE
      \<and> data pkt = take SHAM_MAX_DATA_SIZE (drop SHAM_HEADER_SIZE dgram)"
    by (auto simp: sham_recv_packet_def Let_def drop_take min_def split: prod.splits bool.splits if_splits)
  with len show "SHAM_HEADER_SIZE \<le> length dgram" 
    and "r = int (min (length dgram) SHAM_MAX_PACKET_SIZE)"
    and "data_len pkt = min (length dgram) SHAM_MAX_PACKET_SIZE - SHAM_HEADER_SIZE"
    and "data_len pkt \<le> SHAM_MAX_DATA_SIZE"
    and "data pkt = take SHAM_MAX_DATA_SIZE (drop SHAM_HEADER_SIZE dgram)"
    by auto
qed

theorem recv_packet_size_rule_witness:
  "length (replicate 5 (0 :: 8 word)) < SHAM_HEADER_SIZE
   \<and> fst (sham_recv_packet (sham_create_connection 0) (RecvDatagram (replicate 5 0) 7) quiet_world)
       = NoPacket (-1)
   \<and> SHAM_HEADER_SIZE \<le> length (replicate 13 (0 :: 8 word))
   \<and> loss_rate (sham_create_connection 0) \<le> 0
   \<and> fst (sham_recv_packet (sham_create_connection 0) (RecvDatagram (replicate 13 0) 7) quiet_world)
       = GotPacket 13 \<lparr>header = \<lparr>seq_num = 0, ack_num = 0, flags = 0, window_size = 0\<rparr>,
                       data = [0], data_len = 1\<rparr>
   \<and> data_len \<lparr>header = \<lparr>seq_num = 0, ack_num = 0, flags = 0, window_size = 0\<rparr>,
                       data = [0 :: 8 word], data_len = 1\<rparr> = min 13 SHAM_MAX_PACKET_SIZE - SHAM_HEADER_SIZE"
  using recv_packet_size_rule [of "replicate 5 0" "sham_create_connection 0" 7 quiet_world]
    recv_packet_size_rule [of "replicate 13 0" "sham_create_connection 0" 7 quiet_world]
  by (simp add: sham_create_connection_def eval_defs)



section \<open>The receiver\<close>

lemma ooo_find_None:
  "ooo_find s es = None \<longleftrightarrow>
     list_all (\<lambda>e. valid e \<longrightarrow> seq_num (header (ooo_packet e)) \<noteq> s) es"
  by (induction es) auto

lemma ooo_find_empty:
  "list_all (\<lambda>e. \<not> valid e) es \<Longrightarrow> ooo_find s es = None"
  by (induction es) auto

lemma ooo_free_slot_Some:
  "ooo_free_slot es = Some i \<Longrightarrow> i < length es \<and> \<not> valid (es ! i)"
  by (induction es arbitrary: i) (auto split: if_splits)

lemma deliver_fields:
  "recv_buffer_used (fst (sham_deliver_ooo_packets conn out n)) = recv_buffer_used conn
   \<and> recv_buffer_size (fst (sham_deliver_ooo_packets conn out n)) = recv_buffer_size conn
   \<and> send_seq (fst (sham_deliver_ooo_packets conn out n)) = send_seq conn
   \<and> state (fst (sham_deliver_ooo_packets conn out n)) = state conn"
proof (induction conn out n rule: sham_deliver_ooo_packets.induct)
  case (1 conn out buffer_size)
  show ?case
  proof (cases "ooo_find (recv_seq conn) (ooo_buffer conn)")
    case None
    then show ?thesis by (simp add: sham_deliver_ooo_packets.simps [of conn])
  next
    case (Some i)
    with 1 [OF Some refl refl refl] show ?thesis
      by (simp add: sham_deliver_ooo_packets.simps [of conn] Let_def)
  qed
qed

lemma deliver_exit:
  "ooo_find (recv_seq (fst (sham_deliver_ooo_packets conn out n)))
            (ooo_buffer (fst (sham_deliver_ooo_packets conn out n))) = None"
proof (induction conn out n rule: sham_deliver_ooo_packets.induct)
  case (1 conn out buffer_size)
  show ?case
  proof (cases "ooo_find (recv_seq conn) (ooo_buffer conn)")
    case None
    then show ?thesis by (simp add: sham_deliver_ooo_packets.simps [of conn])
  next
    case (Some i)
    with 1 [OF Some refl refl refl] show ?thesis
      by (simp add: sham_deliver_ooo_packets.simps [of conn] Let_def)
  qed
qed

lemma deliver_full:
  "n \<le> length out \<Longrightarrow> snd (sham_deliver_ooo_packets conn out n) = out"
proof (induction conn out n rule: sham_deliver_ooo_packets.induct)
  case (1 conn out buffer_size)
  show ?case
  proof (cases "ooo_find (recv_seq conn) (ooo_buffer conn)")
    case None
    then show ?thesis by (simp add: sham_deliver_ooo_packets.simps [of conn])
  next
    case (Some i)
    with 1 show ?thesis
      by (simp add: sham_deliver_ooo_packets.simps [of conn] Let_def)
  qed
qed

lemma deliver_nothing:
  "ooo_find (recv_seq conn) (ooo_buffer conn) = None \<Longrightarrow>
     sham_deliver_ooo_packets conn out n = (conn, out)"
  by (simp add: sham_deliver_ooo_packets.simps [of conn])

lemma update_recv_buffer_fields [simp]:
  "recv_seq (sham_update_recv_buffer conn k) = recv_seq conn"
  "ooo_buffer (sham_update_recv_buffer conn k) = ooo_buffer conn"
  "recv_buffer_size (sham_update_recv_buffer conn k) = recv_buffer_size conn"
  "send_seq (sham_update_recv_buffer conn k) = send_seq conn"
  "state (sham_update_recv_buffer conn k) = state conn"
  by (simp_all add: sham_update_recv_buffer_def Let_def)

lemma buffer_ooo_fields [simp]:
  "recv_buffer_used (snd (sham_buffer_ooo_packet conn pkt)) = recv_buffer_used conn"
  "recv_buffer_size (snd (sham_buffer_ooo_packet conn pkt)) = recv_buffer_size conn"
  "recv_seq (snd (sham_buffer_ooo_packet conn pkt)) = recv_seq conn"
  "state (snd (sham_buffer_ooo_packet conn pkt)) = state conn"
  by (simp_all add: sham_buffer_ooo_packet_def split: option.splits)

lemma recv_data_packet_place:
  "recv_data_packet conn pkt out len w = (c', out', w') \<Longrightarrow> 0 < data_len pkt \<Longrightarrow>
     place_segment conn pkt out len = (c', out')"
  by (simp add: recv_data_packet_def Let_def split: prod.splits)

lemma recv_data_packet_empty:
  "recv_data_packet conn pkt out len w = (c', out', w') \<Longrightarrow> data_len pkt = 0 \<Longrightarrow>
     c' = conn \<and> out' = out \<and> w' = w"
  by (simp add: recv_data_packet_def)

lemma charge_unat:
  "unat (recv_buffer_used conn) + n \<le> 65535 \<Longrightarrow> 0 < n \<Longrightarrow>
     unat (recv_buffer_used (sham_update_recv_buffer conn (int n)))
       = unat (recv_buffer_used conn) + n"
  by (simp add: sham_update_recv_buffer_def unat_word_ariths unat_of_nat)

lemma sub_small:
  fixes u :: "16 word"
  assumes "0 < k" "k \<le> uint u"
  shows "unat (u - word_of_int k) = unat u - nat k"
proof -
  have b: "uint u < 65536"
    using uint_bounded [of u] by simp
  have wk: "uint (word_of_int k :: 16 word) = k"
    using assms b by (simp add: uint_word_of_int)
  have "uint (u - word_of_int k) = uint u - k"
    using assms wk by (simp add: uint_sub_if')
  then have "nat (uint (u - word_of_int k)) = nat (uint u) - nat k"
    using assms by (simp only: nat_diff_distrib')
  then show ?thesis
    by (simp only: unat_eq_nat_uint)
qed

lemma discharge_unat:
  "0 < k \<Longrightarrow>
     unat (recv_buffer_used (sham_update_recv_buffer conn (- k))) = unat (recv_buffer_used conn) - nat k"
proof (cases "k \<le> uint (recv_buffer_used conn)")
  case True
  assume k: "0 < k"
  with True sub_small [of k "recv_buffer_used conn"] show ?thesis
    by (simp add: sham_update_recv_buffer_def Let_def)
next
  case False
  assume k: "0 < k"
  from False have "unat (recv_buffer_used conn) - nat k = 0"
    by (simp only: unat_eq_nat_uint)
  with False k show ?thesis
    by (simp add: sham_update_recv_buffer_def Let_def)
qed

lemma place_segment_used:
  assumes fits: "unat (recv_buffer_used conn) + data_len pkt \<le> 65535"
    and pos: "0 < data_len pkt"
  shows "unat (recv_buffer_used (fst (place_segment conn pkt out len))) =
           unat (recv_buffer_used conn)
           + (if seq_num (header pkt) = recv_seq conn
              then data_len pkt - min (data_len pkt) (len - length out) else 0)"
proof (cases "seq_num (header pkt) = recv_seq conn")
  case True
  let ?copy = "min (data_len pkt) (len - length out)"
  let ?c1 = "conn\<lparr>recv_seq := recv_seq conn + of_nat (data_len pkt)\<rparr>"
  let ?c2 = "sham_update_recv_buffer ?c1 (int (data_len pkt))"
  let ?c3 = "fst (sham_deliver_ooo_packets ?c2 (out @ take ?copy (data pkt)) len)"
  have copy: "(if len - length out < data_len pkt then len - length out else data_len pkt) = ?copy"
    by (simp add: min_def)
  from True have c': "fst (place_segment conn pkt out len) = sham_update_recv_buffer ?c3 (- int ?copy)"
    by (simp add: place_segment_def Let_def copy split: prod.splits)
  have u2: "unat (recv_buffer_used ?c2) = unat (recv_buffer_used conn) + data_len pkt"
    using charge_unat [of ?c1 "data_len pkt"] fits pos by simp
  have u3: "recv_buffer_used ?c3 = recv_buffer_used ?c2"
    using deliver_fields by blast
  show ?thesis
  proof (cases "?copy = 0")
    case zero: True
    then have "fst (place_segment conn pkt out len) = ?c3"
      using c' by (simp add: sham_update_recv_buffer_def)
    with u2 u3 zero True show ?thesis by simp
  next
    case False
    then have "0 < int ?copy" by simp
    from discharge_unat [OF this, of ?c3] c'
    have "unat (recv_buffer_used (fst (place_segment conn pkt out len)))
            = unat (recv_buffer_used ?c3) - ?copy"
      by simp
    with u2 u3 True show ?thesis by simp
  qed
next
  case False
  then show ?thesis
    by (simp add: place_segment_def)
qed

lemma place_segment_size:
  "recv_buffer_size (fst (place_segment conn pkt out len)) = recv_buffer_size conn"
  by (simp add: place_segment_def Let_def case_prod_beta deliver_fields)

lemma charge_unat_mod:
  "0 < n \<Longrightarrow>
     unat (recv_buffer_used (sham_update_recv_buffer conn (int n)))
       = (unat (recv_buffer_used conn) + n) mod 65536"
  by (simp add: sham_update_recv_buffer_def unat_word_ariths unat_of_nat mod_add_right_eq)

lemma place_segment_used_mod:
  assumes pos: "0 < data_len pkt"
  shows "unat (recv_buffer_used (fst (place_segment conn pkt out len))) =
           (if seq_num (header pkt) = recv_seq conn
            then (unat (recv_buffer_used conn) + data_len pkt) mod 65536
                 - min (data_len pkt) (len - length out)
            else unat (recv_buffer_used conn))"
proof (cases "seq_num (header pkt) = recv_seq conn")
  case True
  let ?copy = "min (data_len pkt) (len - length out)"
  let ?c1 = "conn\<lparr>recv_seq := recv_seq conn + of_nat (data_len pkt)\<rparr>"
  let ?c2 = "sham_update_recv_buffer ?c1 (int (data_len pkt))"
  let ?c3 = "fst (sham_deliver_ooo_packets ?c2 (out @ take ?copy (data pkt)) len)"
  have copy: "(if len - length out < data_len pkt then len - length out else data_len pkt) = ?copy"
    by (simp add: min_def)
  from True have c': "fst (place_segment conn pkt out len) = sham_update_recv_buffer ?c3 (- int ?copy)"
    by (simp add: place_segment_def Let_def copy split: prod.splits)
  have u2: "unat (recv_buffer_used ?c2) = (unat (recv_buffer_used conn) + data_len pkt) mod 65536"
    using charge_unat_mod [OF pos, of ?c1] by simp
  have u3: "recv_buffer_used ?c3 = recv_buffer_used ?c2"
    using deliver_fields by blast
  show ?thesis
  proof (cases "?copy = 0")
    case zero: True
    then have "fst (place_segment conn pkt out len) = ?c3"
      using c' by (simp add: sham_update_recv_buffer_def)
    with u2 u3 zero True show ?thesis by simp
  next
    case False
    then have "0 < int ?copy" by simp
    from discharge_unat [OF this, of ?c3] c'
    have "unat (recv_buffer_used (fst (place_segment conn pkt out len)))
            = unat (recv_buffer_used ?c3) - ?copy"
      by simp
    with u2 u3 True show ?thesis by simp
  qed
next
  case False
  then show ?thesis
    by (simp add: place_segment_def)
qed

text \<open>
  C7, amended. What one packet handled by \<^verbatim>\<open>sham_recv\<close> does to \<open>recv_buffer_used\<close>:
  an in-order segment with payload charges its \<open>data_len\<close> to the 16-bit counter, that
  is modulo 65536, and then the bytes copied to the application are discharged, stopping
  at zero; any other packet leaves the counter as it is. So, as long as the charge does
  not wrap around (\<open>recv_buffer_used + data_len \<le> 65535\<close>), a payload copied in full
  leaves the counter unchanged and a payload that is cut adds the bytes cut off,
  \<open>data_len - copy_len\<close>, for good. \<open>recv_buffer_size\<close> never changes. Hence
  \<open>recv_buffer_used \<le> recv_buffer_size\<close> is not kept: it lasts only as long as no copy
  is cut short.
\<close>

theorem recv_buffer_accounting:
  assumes step: "recv_data_packet conn pkt out len w = (c', out', w')"
  shows "unat (recv_buffer_used c') =
           (if 0 < data_len pkt \<and> seq_num (header pkt) = recv_seq conn
            then (unat (recv_buffer_used conn) + data_len pkt) mod 65536
                 - min (data_len pkt) (len - length out)
            else unat (recv_buffer_used conn))
       \<and> (unat (recv_buffer_used conn) + data_len pkt \<le> 65535 \<longrightarrow>
            unat (recv_buffer_used c') =
              unat (recv_buffer_used conn)
              + (if 0 < data_len pkt \<and> seq_num (header pkt) = recv_seq conn
                 then data_len pkt - min (data_len pkt) (len - length out) else 0))
       \<and> recv_buffer_size c' = recv_buffer_size conn
       \<and> (unat (recv_buffer_used conn) + data_len pkt \<le> 65535
            \<and> (seq_num (header pkt) = recv_seq conn \<longrightarrow> data_len pkt \<le> len - length out)
            \<longrightarrow> recv_buffer_used c' = recv_buffer_used conn)
       \<and> (\<forall>k > 0. unat (recv_buffer_used (sham_update_recv_buffer conn (- k)))
                     = unat (recv_buffer_used conn) - nat k)"
proof -
  have c': "c' = (if 0 < data_len pkt then fst (place_segment conn pkt out len) else conn)"
  proof (cases "0 < data_len pkt")
    case True
    from recv_data_packet_place [OF step True] True show ?thesis by simp
  next
    case False
    then have "data_len pkt = 0" by simp
    from recv_data_packet_empty [OF step this] False show ?thesis by simp
  qed
  have used: "unat (recv_buffer_used c') =
           (if 0 < data_len pkt \<and> seq_num (header pkt) = recv_seq conn
            then (unat (recv_buffer_used conn) + data_len pkt) mod 65536
                 - min (data_len pkt) (len - length out)
            else unat (recv_buffer_used conn))"
  proof (cases "0 < data_len pkt")
    case True
    from place_segment_used_mod [OF True, of conn out len] c' True show ?thesis
      by simp
  next
    case False
    with c' show ?thesis by simp
  qed
  have small: "unat (recv_buffer_used c') =
              unat (recv_buffer_used conn)
              + (if 0 < data_len pkt \<and> seq_num (header pkt) = recv_seq conn
                 then data_len pkt - min (data_len pkt) (len - length out) else 0)"
    if fits: "unat (recv_buffer_used conn) + data_len pkt \<le> 65535"
  proof -
    from fits have "(unat (recv_buffer_used conn) + data_len pkt) mod 65536
        = unat (recv_buffer_used conn) + data_len pkt"
      by simp
    with used show ?thesis by (simp add: min_def)
  qed
  have size: "recv_buffer_size c' = recv_buffer_size conn"
    using c' place_segment_size by simp
  have same: "recv_buffer_used c' = recv_buffer_used conn"
    if "unat (recv_buffer_used conn) + data_len pkt \<le> 65535
            \<and> (seq_num (header pkt) = recv_seq conn \<longrightarrow> data_len pkt \<le> len - length out)"
  proof -
    from that small have "unat (recv_buffer_used c') = unat (recv_buffer_used conn)"
      by (auto simp: min_def)
    then show ?thesis by (simp only: word_unat_eq_iff)
  qed
  from size used small same discharge_unat show ?thesis
    by blast
qed

theorem recv_buffer_accounting_witness:
  "unat (recv_buffer_used (fst (recv_data_packet est_conn
         \<lparr>header = \<lparr>seq_num = 5001, ack_num = 1001, flags = 0, window_size = 16384\<rparr>,
          data = [65, 66, 67], data_len = 3\<rparr> [] 100 quiet_world))) = 0
   \<and> unat (recv_buffer_used (fst (recv_data_packet est_conn
         \<lparr>header = \<lparr>seq_num = 5001, ack_num = 1001, flags = 0, window_size = 16384\<rparr>,
          data = [65, 66, 67], data_len = 3\<rparr> [] 2 quiet_world))) = 1
   \<and> unat (recv_buffer_used (fst (recv_data_packet (est_conn\<lparr>recv_buffer_used := 65534\<rparr>)
         \<lparr>header = \<lparr>seq_num = 5001, ack_num = 1001, flags = 0, window_size = 16384\<rparr>,
          data = [65, 66, 67], data_len = 3\<rparr> [] 100 quiet_world))) = 0
   \<and> unat (recv_buffer_used (fst (recv_data_packet (est_conn\<lparr>recv_buffer_used := 65534\<rparr>)
         \<lparr>header = \<lparr>seq_num = 5001, ack_num = 1001, flags = 0, window_size = 16384\<rparr>,
          data = [65, 66, 67], data_len = 3\<rparr> [] 1 quiet_world))) = 0
   \<and> recv_buffer_size (fst (recv_data_packet est_conn
         \<lparr>header = \<lparr>seq_num = 5001, ack_num = 1001, flags = 0, window_size = 16384\<rparr>,
          data = [65, 66, 67], data_len = 3\<rparr> [] 2 quiet_world)) = 32768
   \<and> (0 :: int) < 5
   \<and> unat (recv_buffer_used (sham_update_recv_buffer est_conn (- 5))) = 0"
proof -
  let ?P = "\<lparr>header = \<lparr>seq_num = 5001, ack_num = 1001, flags = 0, window_size = 16384\<rparr>,
             data = [65, 66, 67], data_len = 3\<rparr> :: sham_packet"
  let ?U = "est_conn\<lparr>recv_buffer_used := 65534\<rparr>"
  let ?R = "recv_data_packet est_conn ?P [] 100 quiet_world"
  let ?S = "recv_data_packet est_conn ?P [] 2 quiet_world"
  let ?T = "recv_data_packet ?U ?P [] 100 quiet_world"
  let ?V = "recv_data_packet ?U ?P [] 1 quiet_world"
  have stepR: "?R = (fst ?R, fst (snd ?R), snd (snd ?R))" by simp
  have stepS: "?S = (fst ?S, fst (snd ?S), snd (snd ?S))" by simp
  have stepT: "?T = (fst ?T, fst (snd ?T), snd (snd ?T))" by simp
  have stepV: "?V = (fst ?V, fst (snd ?V), snd (snd ?V))" by simp
  have used0: "unat (recv_buffer_used est_conn) = 0" "recv_seq est_conn = 5001"
      "recv_buffer_size est_conn = 32768"
    by (simp_all add: est_conn_eq sham_create_connection_def)
  have usedU: "unat (recv_buffer_used ?U) = 65534" "recv_seq ?U = 5001"
    by (simp_all add: est_conn_eq sham_create_connection_def)
  from recv_buffer_accounting [OF stepR] recv_buffer_accounting [OF stepS]
    recv_buffer_accounting [OF stepT] recv_buffer_accounting [OF stepV] used0 usedU
  show ?thesis by simp
qed

lemma ooo_find_Some:
  "ooo_find s es = Some i \<Longrightarrow>
     i < length es \<and> valid (es ! i) \<and> seq_num (header (ooo_packet (es ! i))) = s"
  by (induction es arbitrary: i) (auto split: if_splits)

lemma deliver_length:
  "length (ooo_buffer (fst (sham_deliver_ooo_packets conn out n))) = length (ooo_buffer conn)"
proof (induction conn out n rule: sham_deliver_ooo_packets.induct)
  case (1 conn out buffer_size)
  show ?case
  proof (cases "ooo_find (recv_seq conn) (ooo_buffer conn)")
    case None
    then show ?thesis by (simp add: sham_deliver_ooo_packets.simps [of conn])
  next
    case (Some i)
    from 1 [OF Some refl refl refl] Some show ?thesis
      by (simp add: sham_deliver_ooo_packets.simps [of conn] Let_def)
  qed
qed

lemma deliver_valid_mono:
  "valid (ooo_buffer (fst (sham_deliver_ooo_packets conn out n)) ! j) \<Longrightarrow>
     j < length (ooo_buffer conn) \<Longrightarrow> valid (ooo_buffer conn ! j)"
proof (induction conn out n rule: sham_deliver_ooo_packets.induct)
  case (1 conn out buffer_size)
  show ?case
  proof (cases "ooo_find (recv_seq conn) (ooo_buffer conn)")
    case None
    with 1(2) show ?thesis by (simp add: sham_deliver_ooo_packets.simps [of conn])
  next
    case (Some i)
    let ?e = "ooo_buffer conn ! i"
    let ?dl = "data_len (ooo_packet ?e)"
    let ?copy = "if buffer_size - length out < ?dl then buffer_size - length out else ?dl"
    let ?c = "conn\<lparr>recv_seq := recv_seq conn + of_nat ?dl,
                    ooo_buffer := (ooo_buffer conn)[i := ?e\<lparr>valid := False\<rparr>]\<rparr>"
    let ?o = "out @ take ?copy (data (ooo_packet ?e))"
    from Some have eq: "sham_deliver_ooo_packets conn out buffer_size
        = sham_deliver_ooo_packets ?c ?o buffer_size"
      by (simp add: sham_deliver_ooo_packets.simps [of conn] Let_def)
    from 1(2) eq have v: "valid (ooo_buffer (fst (sham_deliver_ooo_packets ?c ?o buffer_size)) ! j)"
      by simp
    from 1(3) have j: "j < length (ooo_buffer ?c)" by simp
    from 1(1) [OF Some refl refl refl v j]
    have "valid ((ooo_buffer conn)[i := ?e\<lparr>valid := False\<rparr>] ! j)" by simp
    with 1(3) show ?thesis
      by (cases "i = j") simp_all
  qed
qed

lemma list_all_update:
  "list_all P es \<Longrightarrow> P x \<Longrightarrow> list_all P (es[i := x])"
  by (induction es arbitrary: i) (auto split: nat.splits)

lemma place_segment_ooo_ok:
  assumes ok: "ooo_ok conn"
  shows "ooo_ok (fst (place_segment conn pkt out len))"
proof (cases "seq_num (header pkt) = recv_seq conn")
  case True
  let ?c2 = "sham_update_recv_buffer
      (conn\<lparr>recv_seq := recv_seq conn + of_nat (data_len pkt)\<rparr>) (int (data_len pkt))"
  let ?copy = "if len - length out < data_len pkt then len - length out else data_len pkt"
  let ?c3 = "fst (sham_deliver_ooo_packets ?c2 (out @ take ?copy (data pkt)) len)"
  from True have "fst (place_segment conn pkt out len)
      = sham_update_recv_buffer ?c3 (- int ?copy)"
    by (simp add: place_segment_def Let_def case_prod_beta)
  moreover have "ooo_find (recv_seq ?c3) (ooo_buffer ?c3) = None"
    by (rule deliver_exit)
  ultimately show ?thesis
    by (simp add: ooo_ok_def ooo_find_None)
next
  case False
  show ?thesis
  proof (cases "seq_num (header pkt) > recv_seq conn")
    case True
    show ?thesis
    proof (cases "ooo_free_slot (ooo_buffer conn)")
      case None
      with False True ok show ?thesis
        by (simp add: place_segment_def sham_buffer_ooo_packet_def)
    next
      case (Some i)
      with False True have "fst (place_segment conn pkt out len)
          = conn\<lparr>ooo_buffer := (ooo_buffer conn)[i := \<lparr>ooo_packet = pkt, valid = True\<rparr>]\<rparr>"
        by (simp add: place_segment_def sham_buffer_ooo_packet_def)
      with ok False show ?thesis
        by (simp add: ooo_ok_def list_all_update)
    qed
  next
    case False
    with \<open>seq_num (header pkt) \<noteq> recv_seq conn\<close> ok show ?thesis
      by (simp add: place_segment_def)
  qed
qed

lemma place_segment_new_slot:
  assumes i: "i < length (ooo_buffer conn)"
    and now: "valid (ooo_buffer (fst (place_segment conn pkt out len)) ! i)"
    and before: "\<not> valid (ooo_buffer conn ! i)"
  shows "recv_seq (fst (place_segment conn pkt out len))
           < seq_num (header (ooo_packet (ooo_buffer (fst (place_segment conn pkt out len)) ! i)))"
proof (cases "seq_num (header pkt) = recv_seq conn")
  case True
  let ?c2 = "sham_update_recv_buffer
      (conn\<lparr>recv_seq := recv_seq conn + of_nat (data_len pkt)\<rparr>) (int (data_len pkt))"
  let ?copy = "if len - length out < data_len pkt then len - length out else data_len pkt"
  let ?c3 = "fst (sham_deliver_ooo_packets ?c2 (out @ take ?copy (data pkt)) len)"
  from True have "fst (place_segment conn pkt out len)
      = sham_update_recv_buffer ?c3 (- int ?copy)"
    by (simp add: place_segment_def Let_def case_prod_beta)
  with now have "valid (ooo_buffer ?c3 ! i)" by simp
  from deliver_valid_mono [OF this] i have "valid (ooo_buffer conn ! i)" by simp
  with before show ?thesis by simp
next
  case False
  show ?thesis
  proof (cases "seq_num (header pkt) > recv_seq conn")
    case True
    show ?thesis
    proof (cases "ooo_free_slot (ooo_buffer conn)")
      case None
      with False True now before show ?thesis
        by (simp add: place_segment_def sham_buffer_ooo_packet_def)
    next
      case (Some k)
      with False True have eq: "fst (place_segment conn pkt out len)
          = conn\<lparr>ooo_buffer := (ooo_buffer conn)[k := \<lparr>ooo_packet = pkt, valid = True\<rparr>]\<rparr>"
        by (simp add: place_segment_def sham_buffer_ooo_packet_def)
      with now before have "k = i"
        by (cases "k = i") simp_all
      with eq i True show ?thesis by simp
    qed
  next
    case False
    with \<open>seq_num (header pkt) \<noteq> recv_seq conn\<close> now before show ?thesis
      by (simp add: place_segment_def)
  qed
qed

lemma recv_packet_timeout_recv_fields:
  "sham_recv_packet_timeout conn w = (res, c1, w1) \<Longrightarrow>
     ooo_buffer c1 = ooo_buffer conn \<and> recv_seq c1 = recv_seq conn
     \<and> recv_buffer_used c1 = recv_buffer_used conn \<and> recv_buffer_size c1 = recv_buffer_size conn
     \<and> state c1 = state conn"
  by (auto simp: sham_recv_packet_timeout_def sham_recv_packet_def Let_def
           split: select_result.splits recvfrom_result.splits if_splits prod.splits bool.splits)

lemma recv_data_packet_ooo_ok:
  assumes "ooo_ok conn" "recv_data_packet conn pkt out len w = (c', out', w')"
  shows "ooo_ok c'"
proof (cases "0 < data_len pkt")
  case True
  from recv_data_packet_place [OF assms(2) True] place_segment_ooo_ok [OF assms(1), of pkt out len]
  show ?thesis by simp
next
  case False
  then have "data_len pkt = 0" by simp
  from recv_data_packet_empty [OF assms(2) this] assms(1) show ?thesis by simp
qed

lemma recv_loop_ooo_ok:
  "ooo_ok conn \<Longrightarrow> recv_loop fuel conn out len w = Some (c', out', w') \<Longrightarrow> ooo_ok c'"
proof (induction fuel arbitrary: conn out w)
  case 0
  then show ?case by simp
next
  case (Suc n)
  show ?case
  proof (cases "length out < len")
    case False
    with Suc.prems show ?thesis by simp
  next
    case True
    obtain res c1 w1 where rp: "sham_recv_packet_timeout conn w = (res, c1, w1)"
      by (cases "sham_recv_packet_timeout conn w") auto
    from recv_packet_timeout_recv_fields [OF rp] Suc.prems(1) have ok1: "ooo_ok c1"
      by (simp add: ooo_ok_def)
    show ?thesis
    proof (cases res)
      case (NoPacket r)
      with Suc.prems(2) True rp ok1 show ?thesis by simp
    next
      case (GotPacket r pkt)
      show ?thesis
      proof (cases "r \<le> 0")
        case True
        with Suc.prems(2) \<open>length out < len\<close> rp GotPacket ok1 show ?thesis by simp
      next
        case False
        obtain c2 out1 w2 where st: "recv_data_packet c1 pkt out len w1 = (c2, out1, w2)"
          by (cases "recv_data_packet c1 pkt out len w1") auto
        from recv_data_packet_ooo_ok [OF ok1 st] have "ooo_ok c2" .
        moreover from Suc.prems(2) \<open>length out < len\<close> rp GotPacket False st
        have "recv_loop n c2 out1 len w2 = Some (c', out', w')" by simp
        ultimately show ?thesis by (rule Suc.IH)
      qed
    qed
  qed
qed

text \<open>
  C3, amended. A segment is stored in \<open>ooo_buffer\<close> only while its \<open>seq_num\<close> is strictly
  greater than \<open>recv_seq\<close> (a slot that becomes valid holds such a segment), and after
  every \<^verbatim>\<open>sham_recv\<close> no valid slot has a \<open>seq_num\<close> equal to \<open>recv_seq\<close>. Nothing removes
  a valid slot that \<open>recv_seq\<close> has passed, such as the second copy of a segment that was
  buffered twice: it stays valid with \<open>seq_num < recv_seq\<close>.
\<close>

theorem ooo_never_at_cursor:
  "(ooo_ok conn \<and> sham_recv fuel conn len w = Some (r, c', out, w') \<longrightarrow> ooo_ok c')
   \<and> (i < length (ooo_buffer conn)
        \<and> valid (ooo_buffer (fst (place_segment conn pkt out0 len)) ! i)
        \<and> \<not> valid (ooo_buffer conn ! i) \<longrightarrow>
      recv_seq (fst (place_segment conn pkt out0 len))
        < seq_num (header (ooo_packet (ooo_buffer (fst (place_segment conn pkt out0 len)) ! i))))"
proof (intro conjI impI)
  assume a: "ooo_ok conn \<and> sham_recv fuel conn len w = Some (r, c', out, w')"
  show "ooo_ok c'"
  proof (cases "state conn = SHAM_ESTABLISHED")
    case True
    with a obtain out1 where "recv_loop fuel conn [] len w = Some (c', out1, w')"
      by (auto simp: sham_recv_def split: option.splits)
    with a recv_loop_ooo_ok show ?thesis by blast
  next
    case False
    with a show ?thesis by (auto simp: sham_recv_def)
  qed
next
  assume "i < length (ooo_buffer conn)
        \<and> valid (ooo_buffer (fst (place_segment conn pkt out0 len)) ! i)
        \<and> \<not> valid (ooo_buffer conn ! i)"
  then show "recv_seq (fst (place_segment conn pkt out0 len))
        < seq_num (header (ooo_packet (ooo_buffer (fst (place_segment conn pkt out0 len)) ! i)))"
    using place_segment_new_slot by blast
qed



section \<open>A segment longer than the room left\<close>

lemma released_same: "released b b = 0"
  by (simp add: released_def)

lemma released_step:
  assumes i: "i < length b" and v: "valid (b ! i)" and nv: "\<not> valid (a ! i)"
  shows "released b a
         = data_len (ooo_packet (b ! i)) + released (b[i := (b ! i)\<lparr>valid := False\<rparr>]) a"
proof -
  let ?b1 = "b[i := (b ! i)\<lparr>valid := False\<rparr>]"
  let ?f = "\<lambda>buf j. if valid (buf ! j) \<and> \<not> valid (a ! j)
                     then data_len (ooo_packet (buf ! j)) else 0"
  have fin: "finite {0..<length b}" "i \<in> {0..<length b}"
    using i by simp_all
  have b: "released b a = ?f b i + sum (?f b) ({0..<length b} - {i})"
    unfolding released_def interv_sum_list_conv_sum_set_nat set_upt
    by (rule sum.remove [OF fin])
  have b1: "released ?b1 a = ?f ?b1 i + sum (?f ?b1) ({0..<length b} - {i})"
    unfolding released_def interv_sum_list_conv_sum_set_nat set_upt length_list_update
    by (rule sum.remove [OF fin])
  have rest: "sum (?f b) ({0..<length b} - {i}) = sum (?f ?b1) ({0..<length b} - {i})"
    by (rule sum.cong) simp_all
  have "?f b i = data_len (ooo_packet (b ! i))"
    using v nv by simp
  moreover have "?f ?b1 i = 0"
    using i by simp
  ultimately show ?thesis
    using b b1 rest by simp
qed

lemma deliver_released:
  "recv_seq (fst (sham_deliver_ooo_packets conn out n))
     = recv_seq conn
       + of_nat (released (ooo_buffer conn)
                   (ooo_buffer (fst (sham_deliver_ooo_packets conn out n))))"
proof (induction conn out n rule: sham_deliver_ooo_packets.induct)
  case (1 conn out buffer_size)
  show ?case
  proof (cases "ooo_find (recv_seq conn) (ooo_buffer conn)")
    case None
    then show ?thesis
      by (simp add: sham_deliver_ooo_packets.simps [of conn] released_same)
  next
    case (Some i)
    let ?e = "ooo_buffer conn ! i"
    let ?dl = "data_len (ooo_packet ?e)"
    let ?copy = "if buffer_size - length out < ?dl then buffer_size - length out else ?dl"
    let ?c = "conn\<lparr>recv_seq := recv_seq conn + of_nat ?dl,
                    ooo_buffer := (ooo_buffer conn)[i := ?e\<lparr>valid := False\<rparr>]\<rparr>"
    let ?o = "out @ take ?copy (data (ooo_packet ?e))"
    let ?r = "fst (sham_deliver_ooo_packets ?c ?o buffer_size)"
    from Some have eq: "sham_deliver_ooo_packets conn out buffer_size
        = sham_deliver_ooo_packets ?c ?o buffer_size"
      by (simp add: sham_deliver_ooo_packets.simps [of conn] Let_def)
    from ooo_find_Some [OF Some] have i: "i < length (ooo_buffer conn)" and v: "valid ?e"
      by simp_all
    have nv: "\<not> valid (ooo_buffer ?r ! i)"
    proof
      assume "valid (ooo_buffer ?r ! i)"
      moreover from i have "i < length (ooo_buffer ?c)" by simp
      ultimately have "valid (ooo_buffer ?c ! i)" by (rule deliver_valid_mono)
      with i show False by simp
    qed
    from 1 [OF Some refl refl refl]
    have "recv_seq ?r = recv_seq ?c + of_nat (released (ooo_buffer ?c) (ooo_buffer ?r))" .
    moreover from released_step [OF i v nv]
    have "released (ooo_buffer conn) (ooo_buffer ?r)
        = ?dl + released (ooo_buffer ?c) (ooo_buffer ?r)"
      by simp
    ultimately show ?thesis
      by (simp add: eq)
  qed
qed

lemma recv_packet_timeout_payload:
  "sham_recv_packet_timeout conn w = (GotPacket r pkt, c1, w1) \<Longrightarrow>
     length (data pkt) = data_len pkt"
  by (auto simp: sham_recv_packet_timeout_def sham_recv_packet_def Let_def
           split: select_result.splits recvfrom_result.splits if_splits prod.splits bool.splits)

text \<open>
  C9, amended. In \<^verbatim>\<open>sham_recv\<close>, at any turn of its loop, when the packet that arrives
  is in order (\<open>seq_num = recv_seq\<close>) and its payload is longer than what is left of the
  application buffer: only the prefix that fits is copied, the buffer is then full and
  the loop ends; the rest of the payload is not copied. When this happens at the first
  turn, with \<open>len\<close> below 2^31, \<^verbatim>\<open>sham_recv\<close> returns \<open>len\<close> and the buffer holds the
  first \<open>len\<close> bytes of the payload.
  \<open>recv_seq\<close> advances by the whole \<open>data_len\<close> of the segment, and further by the whole
  \<open>data_len\<close> of every buffered segment that \<^verbatim>\<open>sham_deliver_ooo_packets\<close> releases in
  the same step, of which nothing is copied. It advances by exactly \<open>data_len\<close> when no
  buffered segment waits at \<open>recv_seq + data_len\<close>.
\<close>

theorem recv_truncates_but_advances:
  assumes arrives: "sham_recv_packet_timeout conn w = (GotPacket r pkt, c1, w1)"
    and got: "0 < r"
    and in_order: "seq_num (header pkt) = recv_seq conn"
    and room: "length out < len"
    and larger: "len - length out < data_len pkt"
  shows "\<exists>c' w'.
           recv_loop (Suc (Suc n)) conn out len w
             = Some (c', out @ take (len - length out) (data pkt), w')
         \<and> length (out @ take (len - length out) (data pkt)) = len
         \<and> recv_seq c' = recv_seq conn + of_nat (data_len pkt)
                          + of_nat (released (ooo_buffer conn) (ooo_buffer c'))
         \<and> (ooo_find (recv_seq conn + of_nat (data_len pkt)) (ooo_buffer conn) = None
              \<longrightarrow> recv_seq c' = recv_seq conn + of_nat (data_len pkt))
         \<and> (out = [] \<and> state conn = SHAM_ESTABLISHED \<and> len < 2 ^ 31
              \<longrightarrow> sham_recv (Suc (Suc n)) conn len w
                    = Some (int len, c', take len (data pkt), w'))"
proof -
  let ?out1 = "out @ take (len - length out) (data pkt)"
  let ?c2 = "sham_update_recv_buffer
               (c1\<lparr>recv_seq := recv_seq c1 + of_nat (data_len pkt)\<rparr>) (int (data_len pkt))"
  let ?d = "sham_deliver_ooo_packets ?c2 ?out1 len"
  obtain c' out' w' where step: "recv_data_packet c1 pkt out len w1 = (c', out', w')"
    by (cases "recv_data_packet c1 pkt out len w1") auto
  from recv_packet_timeout_recv_fields [OF arrives]
  have c1: "ooo_buffer c1 = ooo_buffer conn" "recv_seq c1 = recv_seq conn" "state c1 = state conn"
    by simp_all
  note payload = recv_packet_timeout_payload [OF arrives]
  have full: "len \<le> length ?out1"
    using room larger payload by simp
  have len1: "length ?out1 = len"
    using room larger payload by simp
  have pos: "data_len pkt > 0"
    using larger by simp
  from recv_data_packet_place [OF step pos] in_order larger c1
  have c': "c' = sham_update_recv_buffer (fst ?d) (- int (len - length out))"
    and out': "out' = snd ?d"
    by (simp_all add: place_segment_def Let_def split: prod.splits)
  from out' deliver_full [OF full] have o: "out' = ?out1"
    by simp
  have loop: "recv_loop (Suc (Suc n)) conn out len w = Some (c', ?out1, w')"
    using arrives got room step o len1 by simp
  have seq: "recv_seq c' = recv_seq conn + of_nat (data_len pkt)
                          + of_nat (released (ooo_buffer conn) (ooo_buffer c'))"
    using deliver_released [of ?c2 ?out1 len] c' c1 by simp
  have none: "recv_seq c' = recv_seq conn + of_nat (data_len pkt)"
    if "ooo_find (recv_seq conn + of_nat (data_len pkt)) (ooo_buffer conn) = None"
  proof -
    from that c1 have "ooo_find (recv_seq ?c2) (ooo_buffer ?c2) = None"
      by simp
    then have "?d = (?c2, ?out1)"
      by (rule deliver_nothing)
    with c' c1 show ?thesis by simp
  qed
  have call: "sham_recv (Suc (Suc n)) conn len w = Some (int len, c', take len (data pkt), w')"
    if "out = [] \<and> state conn = SHAM_ESTABLISHED \<and> len < 2 ^ 31"
  proof -
    from that have "sint (word_of_nat len :: 32 word) = int len"
      by (simp add: signed_of_nat signed_take_bit_int_eq_self)
    with that loop len1 show ?thesis
      by (simp add: sham_recv_def)
  qed
  show ?thesis
  proof (intro exI conjI)
    show "recv_loop (Suc (Suc n)) conn out len w = Some (c', ?out1, w')"
      by (rule loop)
    show "length ?out1 = len"
      by (rule len1)
    show "recv_seq c' = recv_seq conn + of_nat (data_len pkt)
                          + of_nat (released (ooo_buffer conn) (ooo_buffer c'))"
      by (rule seq)
    show "ooo_find (recv_seq conn + of_nat (data_len pkt)) (ooo_buffer conn) = None
            \<longrightarrow> recv_seq c' = recv_seq conn + of_nat (data_len pkt)"
      using none by blast
    show "out = [] \<and> state conn = SHAM_ESTABLISHED \<and> len < 2 ^ 31
            \<longrightarrow> sham_recv (Suc (Suc n)) conn len w
                  = Some (int len, c', take len (data pkt), w')"
      using call by blast
  qed
qed

theorem recv_truncates_but_advances_witness:
  "\<exists>c' w'. sham_recv 2 est_conn 2
        (quiet_world\<lparr>net_script := arrivals
           [from_peer (sham_create_packet 5001 1001 0 (Some [65, 66, 67]) 3)]\<rparr>)
      = Some (2, c', [65, 66], w')
    \<and> recv_seq est_conn = 5001 \<and> recv_seq c' = 5004"
proof -
  let ?p = "sham_create_packet 5001 1001 0 (Some [65, 66, 67]) 3"
  let ?W = "quiet_world\<lparr>net_script := arrivals [from_peer ?p]\<rparr>"
  let ?P = "\<lparr>header = \<lparr>seq_num = ntohl (seq_num (header ?p)),
                         ack_num = ntohl (ack_num (header ?p)),
                         flags = ntohs (flags (header ?p)),
                         window_size = ntohs (window_size (header ?p))\<rparr>,
               data = take (data_len ?p) (data ?p), data_len = data_len ?p\<rparr>"
  have est: "recv_seq est_conn = 5001" "state est_conn = SHAM_ESTABLISHED"
      "loss_rate est_conn \<le> 0" "peer_len est_conn \<noteq> 0"
      "ooo_find 5004 (ooo_buffer est_conn) = None"
    by (simp_all add: est_conn_eq sham_create_connection_def ooo_find_empty list_all_iff)
  have p: "data_len ?p = 3" "data ?p = [65, 66, 67]" "seq_num (header ?p) = htonl 5001"
    by (simp_all add: sham_create_packet_def)
  have arrives: "sham_recv_packet_timeout est_conn ?W
      = (GotPacket (int (SHAM_HEADER_SIZE + data_len ?p)) ?P,
         (if peer_len est_conn = 0 then est_conn\<lparr>peer_addr := 7, peer_len := 16\<rparr> else est_conn),
         ?W\<lparr>net_pos := net_pos ?W + 1\<rparr>)"
    by (rule recv_from_peer) (simp_all add: est p quiet_world_def arrivals_def)
  have got: "0 < int (SHAM_HEADER_SIZE + data_len ?p)" by simp
  have in_order: "seq_num (header ?P) = recv_seq est_conn"
    by (simp add: est p)
  have room: "length ([] :: 8 word list) < 2" by simp
  have larger: "2 - length ([] :: 8 word list) < data_len ?P"
    by (simp add: p)
  have s2: "Suc (Suc 0) = 2" by simp
  from recv_truncates_but_advances [OF arrives got in_order room larger, of 0] est p
  show ?thesis
    by (auto simp add: s2)
qed


section \<open>Receive-buffer accounting over many calls\<close>

lemma update_recv_buffer_loss [simp]:
  "loss_rate (sham_update_recv_buffer conn k) = loss_rate conn"
  by (simp add: sham_update_recv_buffer_def Let_def)

lemma truncated_call:
  assumes inv: "trunc_state j conn w" and j: "j < 60"
  shows "\<exists>c' w'. sham_recv 2 conn 1 w = Some (1, c', [0], w') \<and> trunc_state (Suc j) c' w'"
proof -
  let ?p = "sham_create_packet (5001 + 1024 * of_nat j) 1001 0 (Some (replicate 1024 0)) 1024"
  let ?pk = "\<lparr>header = \<lparr>seq_num = 5001 + 1024 * of_nat j, ack_num = 1001,
                         flags = 0, window_size = SHAM_DEFAULT_ADVERTISED_WINDOW\<rparr>,
              data = replicate 1024 (0 :: 8 word), data_len = 1024\<rparr>"
  let ?c1 = "if peer_len conn = 0 then conn\<lparr>peer_addr := 7, peer_len := 16\<rparr> else conn"
  let ?w1 = "w\<lparr>net_pos := net_pos w + 1\<rparr>"
  from inv have script: "net_script w (net_pos w) = from_peer ?p"
    by (simp add: trunc_state_def segs_world_def)
  from inv have nl: "loss_rate conn \<le> 0" by (simp add: trunc_state_def)
  have p: "data_len ?p = 1024" "data ?p = replicate 1024 0"
      "seq_num (header ?p) = htonl (5001 + 1024 * of_nat j)" "ack_num (header ?p) = htonl 1001"
      "flags (header ?p) = htons 0" "window_size (header ?p) = htons SHAM_DEFAULT_ADVERTISED_WINDOW"
    by (simp_all add: sham_create_packet_def)
  have rp: "sham_recv_packet_timeout conn w = (GotPacket 1036 ?pk, ?c1, ?w1)"
    using recv_from_peer [OF script nl] p by simp
  let ?c2 = "sham_update_recv_buffer
               (?c1\<lparr>recv_seq := recv_seq ?c1 + of_nat 1024\<rparr>) (int 1024)"
  let ?c3 = "sham_update_recv_buffer ?c2 (- int 1)"
  from inv have empty: "ooo_find (recv_seq ?c2) (ooo_buffer ?c2) = None"
    by (simp add: trunc_state_def ooo_find_empty)
  have seq1: "seq_num (header ?pk) = recv_seq ?c1"
    using inv by (simp add: trunc_state_def)
  have place: "place_segment ?c1 ?pk [] 1 = (?c3, [0])"
    using seq1 deliver_nothing [OF empty, of "[0]" 1]
    by (simp add: place_segment_def Let_def)
  have fits: "unat (recv_buffer_used ?c1) + data_len ?pk \<le> 65535"
    using inv j by (simp add: trunc_state_def)
  from place_segment_used [OF fits, of "[]" 1] place seq1
  have used: "unat (recv_buffer_used ?c3) = 1023 * Suc j"
    using inv by (simp add: trunc_state_def)
  let ?ack = "sham_create_packet_with_conn ?c3 (send_seq ?c3) (recv_seq ?c3) SHAM_ACK None 0"
  let ?w2 = "snd (sham_send_packet ?c3 ?ack ?w1)"
  have step: "recv_data_packet ?c1 ?pk [] 1 ?w1 = (?c3, [0], ?w2)"
    using place by (simp add: recv_data_packet_def Let_def)
  have loop: "recv_loop (Suc (Suc 0)) conn [] 1 w = Some (?c3, [0], ?w2)"
    using rp step by simp
  have w2: "net_script ?w2 = net_script w" "net_pos ?w2 = Suc (net_pos w)"
    by (simp_all add: sham_send_packet_def Let_def)
  from inv have est: "state conn = SHAM_ESTABLISHED" by (simp add: trunc_state_def)
  have "sham_recv 2 conn 1 w = Some (1, ?c3, [0], ?w2)"
    using loop est by (simp add: sham_recv_def numeral_2_eq_2)
  moreover have "trunc_state (Suc j) ?c3 ?w2"
    using inv used w2 by (simp add: trunc_state_def algebra_simps)
  ultimately show ?thesis by blast
qed

lemma truncated_calls:
  "trunc_state j conn w \<Longrightarrow> j + k < 61 \<Longrightarrow>
     \<exists>c' w'. recv_calls 2 k conn 1 w = Some (c', w') \<and> trunc_state (j + k) c' w'"
proof (induction k arbitrary: j conn w)
  case 0
  then show ?case by simp
next
  case (Suc k)
  from Suc.prems have "j < 60" by simp
  from truncated_call [OF Suc.prems(1) this]
  obtain c1 w1 where call: "sham_recv 2 conn 1 w = Some (1, c1, [0], w1)"
    and inv1: "trunc_state (Suc j) c1 w1" by blast
  from Suc.prems have "Suc j + k < 61" by simp
  from Suc.IH [OF inv1 this] call show ?case by simp
qed

text \<open>
  Counterexample to C7 as stated: the application calls \<^verbatim>\<open>sham_recv\<close> 33 times with a
  buffer of one byte while the peer sends full segments in order. Each call copies one
  byte of a segment of 1024 and leaves the other 1023 charged; after the 33rd call
  \<open>recv_buffer_used\<close> is 33759, above \<open>recv_buffer_size\<close> = 32768.
\<close>

theorem recv_buffer_used_exceeds_size:
  "map_option (\<lambda>(c, w). (recv_buffer_used c, recv_buffer_size c))
     (recv_calls 2 33 est_conn 1 segs_world) = Some (33759, 32768)"
proof -
  have "trunc_state 0 est_conn segs_world"
    by (simp add: trunc_state_def est_conn_eq sham_create_connection_def segs_world_def
          quiet_world_def list_all_iff)
  from truncated_calls [OF this, of 33]
  obtain c w where run: "recv_calls 2 33 est_conn 1 segs_world = Some (c, w)"
    and inv: "trunc_state 33 c w" by auto
  from inv have "unat (recv_buffer_used c) = unat (33759 :: 16 word)"
    by (simp add: trunc_state_def)
  then have "recv_buffer_used c = 33759"
    by (simp only: word_unat_eq_iff)
  moreover from inv have "recv_buffer_size c = 32768"
    by (simp add: trunc_state_def)
  ultimately show ?thesis using run by simp
qed



section \<open>Acknowledgments\<close>

lemma ack_loop_stop:
  "window_count conn \<le> 0 \<or> ackn < entry_end (send_window conn ! nat (window_start conn))
     \<Longrightarrow> ack_window_loop ackn conn = conn"
  by (subst ack_window_loop.simps) (auto simp: entry_end_def Let_def)

lemma ack_loop_step:
  "0 < window_count conn \<Longrightarrow> entry_end (send_window conn ! nat (window_start conn)) \<le> ackn \<Longrightarrow>
     ack_window_loop ackn conn =
       ack_window_loop ackn
         (conn\<lparr>send_window := (send_window conn)
                   [nat (window_start conn) :=
                      (send_window conn ! nat (window_start conn))\<lparr>acked := True\<rparr>],
               send_base := entry_end (send_window conn ! nat (window_start conn)),
               window_start := (window_start conn + 1) mod SHAM_WINDOW_SIZE,
               window_count := window_count conn - 1\<rparr>)"
  by (subst ack_window_loop.simps) (simp add: entry_end_def Let_def)

lemma ack_loop_fields:
  "last_byte_acked (ack_window_loop ackn conn) = last_byte_acked conn
   \<and> last_byte_sent (ack_window_loop ackn conn) = last_byte_sent conn
   \<and> peer_window_size (ack_window_loop ackn conn) = peer_window_size conn
   \<and> send_seq (ack_window_loop ackn conn) = send_seq conn
   \<and> state (ack_window_loop ackn conn) = state conn
   \<and> length (send_window (ack_window_loop ackn conn)) = length (send_window conn)"
proof (induction ackn conn rule: ack_window_loop.induct)
  case (1 ackn conn)
  show ?case
  proof (cases "0 < window_count conn
                \<and> entry_end (send_window conn ! nat (window_start conn)) \<le> ackn")
    case True
    with 1 [OF _ refl refl] ack_loop_step [of conn ackn] show ?thesis
      by (simp add: entry_end_def)
  next
    case False
    then have "ack_window_loop ackn conn = conn"
      by (intro ack_loop_stop) auto
    then show ?thesis by simp
  qed
qed

lemma acked_update_packet:
  "packet ((xs[k := (xs ! k)\<lparr>acked := True\<rparr>]) ! j) = packet (xs ! j)"
  by (cases "k < length xs") (auto simp: nth_list_update list_update_beyond)

lemma ring_next:
  "((s + 1) mod 10 + int i) mod 10 = (s + int (Suc i)) mod (10 :: int)"
proof -
  have "((s + 1) mod 10 + int i) mod 10 = ((s + 1) + int i) mod 10"
    by (rule mod_add_left_eq)
  then show ?thesis by (simp add: ac_simps)
qed

lemma window_entries_length [simp]:
  "length (window_entries conn) = nat (window_count conn)"
  by (simp add: window_entries_def)

lemma window_entries_nth:
  "i < nat (window_count conn) \<Longrightarrow>
     window_entries conn ! i = send_window conn ! nat ((window_start conn + int i) mod 10)"
  by (simp add: window_entries_def)

lemma pop_entry_packet:
  assumes "0 < window_count conn" "i < nat (window_count conn - 1)"
  shows "packet (window_entries
           (conn\<lparr>send_window := (send_window conn)
                   [nat (window_start conn) :=
                      (send_window conn ! nat (window_start conn))\<lparr>acked := True\<rparr>],
                 send_base := b,
                 window_start := (window_start conn + 1) mod SHAM_WINDOW_SIZE,
                 window_count := window_count conn - 1\<rparr>) ! i)
         = packet (window_entries conn ! Suc i)"
proof -
  from assms have "Suc i < nat (window_count conn)" by linarith
  then have "window_entries conn ! Suc i
      = send_window conn ! nat ((window_start conn + int (Suc i)) mod 10)"
    by (rule window_entries_nth)
  moreover from assms(2) have "window_entries
           (conn\<lparr>send_window := (send_window conn)
                   [nat (window_start conn) :=
                      (send_window conn ! nat (window_start conn))\<lparr>acked := True\<rparr>],
                 send_base := b,
                 window_start := (window_start conn + 1) mod SHAM_WINDOW_SIZE,
                 window_count := window_count conn - 1\<rparr>) ! i
      = (send_window conn)
                   [nat (window_start conn) :=
                      (send_window conn ! nat (window_start conn))\<lparr>acked := True\<rparr>]
          ! nat (((window_start conn + 1) mod 10 + int i) mod 10)"
    by (simp add: window_entries_nth)
  ultimately show ?thesis
    by (simp only: acked_update_packet ring_next)
qed

lemma no_wrap_le:
  fixes x :: "32 word"
  assumes "unat x + n < 2 ^ 32"
  shows "x \<le> x + of_nat n"
proof -
  from assms have "unat (x + of_nat n) = unat x + n"
    by (simp add: unat_word_ariths unat_of_nat)
  then show ?thesis
    by (simp add: word_le_nat_alt)
qed

lemma ack_loop_mono:
  "0 \<le> window_start conn \<Longrightarrow> window_start conn < 10 \<Longrightarrow> b \<le> send_base conn \<Longrightarrow>
   list_all (\<lambda>e. b \<le> ntohl (seq_num (header (packet e)))
                 \<and> unat (ntohl (seq_num (header (packet e)))) + data_len (packet e) < 2 ^ 32)
     (window_entries conn) \<Longrightarrow>
   b \<le> send_base (ack_window_loop ackn conn)"
proof (induction "nat (window_count conn)" arbitrary: conn)
  case 0
  then have "ack_window_loop ackn conn = conn"
    by (intro ack_loop_stop) simp
  with 0 show ?case by simp
next
  case (Suc n)
  let ?first = "send_window conn ! nat (window_start conn)"
  show ?case
  proof (cases "entry_end ?first \<le> ackn")
    case False
    then have "ack_window_loop ackn conn = conn"
      by (intro ack_loop_stop) (simp add: not_le)
    with Suc.prems show ?thesis by simp
  next
    case True
    let ?c = "conn\<lparr>send_window := (send_window conn)
                   [nat (window_start conn) := ?first\<lparr>acked := True\<rparr>],
               send_base := entry_end ?first,
               window_start := (window_start conn + 1) mod SHAM_WINDOW_SIZE,
               window_count := window_count conn - 1\<rparr>"
    from Suc.hyps(2) have pos: "0 < window_count conn" by linarith
    from ack_loop_step [OF pos True] have eq: "ack_window_loop ackn conn = ack_window_loop ackn ?c" .
    have first: "window_entries conn ! 0 = ?first"
      using pos Suc.prems(1,2) by (simp add: window_entries_nth)
    from Suc.prems(4) pos have q0: "b \<le> ntohl (seq_num (header (packet (window_entries conn ! 0))))
        \<and> unat (ntohl (seq_num (header (packet (window_entries conn ! 0)))))
             + data_len (packet (window_entries conn ! 0)) < 2 ^ 32"
      by (simp add: list_all_length)
    from q0 first have "b \<le> ntohl (seq_num (header (packet ?first)))"
      and "unat (ntohl (seq_num (header (packet ?first)))) + data_len (packet ?first) < 2 ^ 32"
      by simp_all
    from this(1) no_wrap_le [OF this(2)] have base: "b \<le> entry_end ?first"
      unfolding entry_end_def by (rule order_trans)
    have n: "n = nat (window_count ?c)"
      using Suc.hyps(2) by simp
    have entries: "list_all (\<lambda>e. b \<le> ntohl (seq_num (header (packet e)))
                 \<and> unat (ntohl (seq_num (header (packet e)))) + data_len (packet e) < 2 ^ 32)
            (window_entries ?c)"
      unfolding list_all_length
    proof (intro allI impI)
      fix i assume "i < length (window_entries ?c)"
      then have i: "i < nat (window_count conn - 1)" by simp
      from pop_entry_packet [OF pos i, of "entry_end ?first"]
      have "packet (window_entries ?c ! i) = packet (window_entries conn ! Suc i)" .
      moreover from i have "Suc i < length (window_entries conn)" by simp
      with Suc.prems(4) have "b \<le> ntohl (seq_num (header (packet (window_entries conn ! Suc i))))
        \<and> unat (ntohl (seq_num (header (packet (window_entries conn ! Suc i)))))
             + data_len (packet (window_entries conn ! Suc i)) < 2 ^ 32"
        unfolding list_all_length by blast
      ultimately show "b \<le> ntohl (seq_num (header (packet (window_entries ?c ! i))))
        \<and> unat (ntohl (seq_num (header (packet (window_entries ?c ! i)))))
             + data_len (packet (window_entries ?c ! i)) < 2 ^ 32"
        by simp
    qed
    have "b \<le> send_base (ack_window_loop ackn ?c)"
      by (rule Suc.hyps(1) [OF n _ _ _ entries]) (simp_all add: base)
    with eq show ?thesis by simp
  qed
qed


lemma ack_loop_idem:
  "ack_window_loop ackn (ack_window_loop ackn conn) = ack_window_loop ackn conn"
proof (induction ackn conn rule: ack_window_loop.induct)
  case (1 ackn conn)
  show ?case
  proof (cases "0 < window_count conn
                \<and> entry_end (send_window conn ! nat (window_start conn)) \<le> ackn")
    case True
    with 1 [OF _ refl refl] ack_loop_step [of conn ackn] show ?thesis
      by (simp add: entry_end_def)
  next
    case False
    then have "ack_window_loop ackn conn = conn"
      by (intro ack_loop_stop) auto
    then show ?thesis by simp
  qed
qed

lemma process_ack_idem:
  "sham_process_ack (sham_process_ack conn p) p = sham_process_ack conn p"
proof -
  let ?a = "ack_num (header p)"
  let ?c1 = "conn\<lparr>peer_window_size := window_size (header p)\<rparr>"
  let ?c2 = "if ?a > last_byte_acked ?c1 then ?c1\<lparr>last_byte_acked := ?a\<rparr> else ?c1"
  let ?r = "ack_window_loop ?a ?c2"
  have r: "sham_process_ack conn p = ?r"
    by (simp add: sham_process_ack_def Let_def)
  have pw: "peer_window_size ?r = window_size (header p)"
    by (simp add: ack_loop_fields)
  have "last_byte_acked ?r = last_byte_acked ?c2"
    by (simp add: ack_loop_fields)
  then have old: "\<not> ?a > last_byte_acked ?r"
    by (simp add: not_less)
  have "?r\<lparr>peer_window_size := peer_window_size ?r\<rparr> = ?r"
    by simp
  then have same: "?r\<lparr>peer_window_size := window_size (header p)\<rparr> = ?r"
    by (simp only: pw)
  have "sham_process_ack ?r p = ack_window_loop ?a ?r"
    unfolding sham_process_ack_def Let_def same using old by simp
  then show ?thesis
    by (simp only: r ack_loop_idem)
qed

text \<open>
  C8, amended. Processing the same acknowledgment twice is the same as processing it
  once. An acknowledgment whose value is at most \<open>last_byte_acked\<close> leaves
  \<open>last_byte_acked\<close> as it is, but it is not without effect: \<open>peer_window_size\<close> is
  always overwritten with the window it advertises. That is its only effect when the
  send window is empty or its oldest segment ends beyond the acknowledged value. No
  acknowledgment moves \<open>send_base\<close> backwards, as long as the segments in the send window
  start at or after \<open>send_base\<close> and end before the sequence numbers wrap around.
\<close>

theorem process_ack_old_and_monotone:
  "sham_process_ack (sham_process_ack conn p) p = sham_process_ack conn p
   \<and> (ack_num (header p) \<le> last_byte_acked conn \<longrightarrow>
      last_byte_acked (sham_process_ack conn p) = last_byte_acked conn)
   \<and> (ack_num (header p) \<le> last_byte_acked conn
        \<and> (window_count conn \<le> 0
            \<or> ack_num (header p) < entry_end (send_window conn ! nat (window_start conn))) \<longrightarrow>
      sham_process_ack conn p = conn\<lparr>peer_window_size := window_size (header p)\<rparr>)
   \<and> (window_ahead conn \<longrightarrow> send_base conn \<le> send_base (sham_process_ack conn p))"
proof (intro conjI impI)
  show "sham_process_ack (sham_process_ack conn p) p = sham_process_ack conn p"
    by (rule process_ack_idem)
next
  assume "ack_num (header p) \<le> last_byte_acked conn"
  then have "\<not> last_byte_acked conn < ack_num (header p)"
    by (rule leD)
  then show "last_byte_acked (sham_process_ack conn p) = last_byte_acked conn"
    by (simp add: sham_process_ack_def Let_def ack_loop_fields)
next
  assume a: "ack_num (header p) \<le> last_byte_acked conn
        \<and> (window_count conn \<le> 0
            \<or> ack_num (header p) < entry_end (send_window conn ! nat (window_start conn)))"
  let ?c = "conn\<lparr>peer_window_size := window_size (header p)\<rparr>"
  from a have "ack_window_loop (ack_num (header p)) ?c = ?c"
    by (intro ack_loop_stop) simp
  moreover from a have "\<not> last_byte_acked conn < ack_num (header p)"
    by (simp add: leD)
  ultimately show "sham_process_ack conn p = conn\<lparr>peer_window_size := window_size (header p)\<rparr>"
    by (simp add: sham_process_ack_def Let_def)
next
  assume w: "window_ahead conn"
  let ?c = "conn\<lparr>peer_window_size := window_size (header p)\<rparr>"
  let ?c2 = "if ack_num (header p) > last_byte_acked ?c
             then ?c\<lparr>last_byte_acked := ack_num (header p)\<rparr> else ?c"
  have same: "window_entries ?c2 = window_entries conn \<and> window_start ?c2 = window_start conn
      \<and> send_base ?c2 = send_base conn"
    by (simp add: window_entries_def)
  from w have pre: "0 \<le> window_start ?c2" "window_start ?c2 < 10"
      "send_base conn \<le> send_base ?c2"
      "list_all (\<lambda>e. send_base conn \<le> ntohl (seq_num (header (packet e)))
                 \<and> unat (ntohl (seq_num (header (packet e)))) + data_len (packet e) < 2 ^ 32)
         (window_entries ?c2)"
    unfolding window_ahead_def by (simp_all only: same)
  have "send_base conn \<le> send_base (ack_window_loop (ack_num (header p)) ?c2)"
    by (rule ack_loop_mono [OF pre])
  then show "send_base conn \<le> send_base (sham_process_ack conn p)"
    by (simp add: sham_process_ack_def Let_def)
qed

lemma in_flight_conn_fields:
  "window_count in_flight_conn = 1" "window_start in_flight_conn = 0"
  "send_base in_flight_conn = 1001" "last_byte_acked in_flight_conn = 1000"
  "ntohl (seq_num (header (packet (send_window in_flight_conn ! 0)))) = 1001"
  "data_len (packet (send_window in_flight_conn ! 0)) = 1"
  by (simp_all add: in_flight_conn_def send_segment_def est_conn_eq sham_create_connection_def
        sham_update_flow_control_def gettimeofday_def sham_create_packet_with_conn_def
        sham_create_packet_def sham_send_packet_def quiet_world_def Let_def)

theorem process_ack_old_and_monotone_witness:
  "ack_num (header \<lparr>header = \<lparr>seq_num = 5001, ack_num = 1001, flags = SHAM_ACK,
                               window_size = 1024\<rparr>, data = [], data_len = 0\<rparr>)
     \<le> last_byte_acked (in_flight_conn\<lparr>peer_window_size := 32768, last_byte_acked := 1001\<rparr>)
   \<and> 0 < window_count (in_flight_conn\<lparr>peer_window_size := 32768, last_byte_acked := 1001\<rparr>)
   \<and> window_ahead (in_flight_conn\<lparr>peer_window_size := 32768, last_byte_acked := 1001\<rparr>)
   \<and> sham_process_ack (in_flight_conn\<lparr>peer_window_size := 32768, last_byte_acked := 1001\<rparr>)
       \<lparr>header = \<lparr>seq_num = 5001, ack_num = 1001, flags = SHAM_ACK, window_size = 1024\<rparr>,
        data = [], data_len = 0\<rparr>
     = in_flight_conn\<lparr>peer_window_size := 1024, last_byte_acked := 1001\<rparr>
   \<and> send_base (in_flight_conn\<lparr>peer_window_size := 32768, last_byte_acked := 1001\<rparr>) = 1001
   \<and> send_base (sham_process_ack (in_flight_conn\<lparr>peer_window_size := 32768, last_byte_acked := 1001\<rparr>)
       \<lparr>header = \<lparr>seq_num = 5001, ack_num = 1002, flags = SHAM_ACK, window_size = 32768\<rparr>,
        data = [], data_len = 0\<rparr>) = 1002
   \<and> window_count (sham_process_ack (in_flight_conn\<lparr>peer_window_size := 32768, last_byte_acked := 1001\<rparr>)
       \<lparr>header = \<lparr>seq_num = 5001, ack_num = 1002, flags = SHAM_ACK, window_size = 32768\<rparr>,
        data = [], data_len = 0\<rparr>) = 0
   \<and> send_base (in_flight_conn\<lparr>peer_window_size := 32768, last_byte_acked := 1001\<rparr>)
       \<le> send_base (sham_process_ack (in_flight_conn\<lparr>peer_window_size := 32768, last_byte_acked := 1001\<rparr>)
       \<lparr>header = \<lparr>seq_num = 5001, ack_num = 1002, flags = SHAM_ACK, window_size = 32768\<rparr>,
        data = [], data_len = 0\<rparr>)
   \<and> sham_process_ack (sham_process_ack (in_flight_conn\<lparr>peer_window_size := 32768, last_byte_acked := 1001\<rparr>)
       \<lparr>header = \<lparr>seq_num = 5001, ack_num = 1002, flags = SHAM_ACK, window_size = 32768\<rparr>,
        data = [], data_len = 0\<rparr>)
       \<lparr>header = \<lparr>seq_num = 5001, ack_num = 1002, flags = SHAM_ACK, window_size = 32768\<rparr>,
        data = [], data_len = 0\<rparr>
     = sham_process_ack (in_flight_conn\<lparr>peer_window_size := 32768, last_byte_acked := 1001\<rparr>)
       \<lparr>header = \<lparr>seq_num = 5001, ack_num = 1002, flags = SHAM_ACK, window_size = 32768\<rparr>,
        data = [], data_len = 0\<rparr>"
proof -
  let ?c = "in_flight_conn\<lparr>peer_window_size := 32768, last_byte_acked := 1001\<rparr>"
  let ?A = "\<lparr>header = \<lparr>seq_num = 5001, ack_num = 1001, flags = SHAM_ACK,
                               window_size = 1024\<rparr>, data = [], data_len = 0\<rparr> :: sham_packet"
  let ?B = "\<lparr>header = \<lparr>seq_num = 5001, ack_num = 1002, flags = SHAM_ACK,
                               window_size = 32768\<rparr>, data = [], data_len = 0\<rparr> :: sham_packet"
  note f = in_flight_conn_fields
  have h: "ack_num (header ?A) \<le> last_byte_acked ?c" "0 < window_count ?c"
      "ack_num (header ?A) < entry_end (send_window ?c ! nat (window_start ?c))"
      "window_ahead ?c" "send_base ?c = 1001"
    by (simp_all add: f entry_end_def window_ahead_def window_entries_def)
  let ?d = "in_flight_conn\<lparr>peer_window_size := 32768, last_byte_acked := 1002\<rparr>"
  have B: "sham_process_ack ?c ?B = ack_window_loop 1002 ?d"
    by (simp add: sham_process_ack_def Let_def)
  have "0 < window_count ?d" "entry_end (send_window ?d ! nat (window_start ?d)) \<le> 1002"
    by (simp_all add: f entry_end_def)
  from ack_loop_step [OF this]
  have "ack_window_loop 1002 ?d
      = ack_window_loop 1002
          (?d\<lparr>send_window := (send_window ?d)
                   [nat (window_start ?d) :=
                      (send_window ?d ! nat (window_start ?d))\<lparr>acked := True\<rparr>],
               send_base := entry_end (send_window ?d ! nat (window_start ?d)),
               window_start := (window_start ?d + 1) mod SHAM_WINDOW_SIZE,
               window_count := window_count ?d - 1\<rparr>)" .
  also have "\<dots> = ?d\<lparr>send_window := (send_window ?d)
                   [nat (window_start ?d) :=
                      (send_window ?d ! nat (window_start ?d))\<lparr>acked := True\<rparr>],
               send_base := entry_end (send_window ?d ! nat (window_start ?d)),
               window_start := (window_start ?d + 1) mod SHAM_WINDOW_SIZE,
               window_count := window_count ?d - 1\<rparr>"
    by (rule ack_loop_stop) (simp add: f)
  finally have popped: "send_base (sham_process_ack ?c ?B) = 1002"
      "window_count (sham_process_ack ?c ?B) = 0"
    by (simp_all add: B f entry_end_def)
  from process_ack_old_and_monotone [of ?c ?A] process_ack_old_and_monotone [of ?c ?B]
    h popped
  show ?thesis by simp
qed

text \<open>
  Counterexample to C8 as stated, in two runs. In the first, after the peer's
  acknowledgment 1001 with window 32768, another acknowledgment 1001 arrives that
  advertises a window of 1024. Its value is not above \<open>last_byte_acked\<close>, yet the
  connection changes: \<open>peer_window_size\<close> becomes 1024. In the second, two bytes are
  sent as one segment from sequence number 2^32 - 1 and the peer acknowledges them with
  the value 1. That value is below \<open>last_byte_acked\<close> = 2^32 - 2, yet the segment is
  taken off the send window, and \<open>send_base\<close> goes from 4294967295 back to 1.
\<close>

theorem old_ack_changes_state_and_base_regresses:
  "sham_process_ack est_conn
     \<lparr>header = \<lparr>seq_num = 5001, ack_num = 1001, flags = SHAM_ACK, window_size = 32768\<rparr>,
      data = [], data_len = 0\<rparr>
     = est_conn\<lparr>peer_window_size := 32768, last_byte_acked := 1001\<rparr>
   \<and> ack_num (header \<lparr>header = \<lparr>seq_num = 5001, ack_num = 1001, flags = SHAM_ACK,
                               window_size = 1024\<rparr>, data = [], data_len = 0\<rparr>)
     \<le> last_byte_acked (est_conn\<lparr>peer_window_size := 32768, last_byte_acked := 1001\<rparr>)
   \<and> sham_process_ack (est_conn\<lparr>peer_window_size := 32768, last_byte_acked := 1001\<rparr>)
       \<lparr>header = \<lparr>seq_num = 5001, ack_num = 1001, flags = SHAM_ACK, window_size = 1024\<rparr>,
        data = [], data_len = 0\<rparr>
     \<noteq> est_conn\<lparr>peer_window_size := 32768, last_byte_acked := 1001\<rparr>
   \<and> (case send_loop 3 wrap_conn [65, 66] 0 wrap_ack_world of
      Some (SendDone c1 w1 n) \<Rightarrow>
        (case sham_recv_packet_timeout c1 w1 of
           (GotPacket r p, c2, w2) \<Rightarrow>
             Some (n, flags (header p), ack_num (header p), last_byte_acked c2, send_base c2,
                   send_base (sham_process_ack c2 p), window_count (sham_process_ack c2 p))
         | _ \<Rightarrow> None)
    | _ \<Rightarrow> None)
   = Some (2, SHAM_ACK, 1, 4294967294, 4294967295, 1, 0)"
proof -
  have first: "sham_process_ack est_conn
     \<lparr>header = \<lparr>seq_num = 5001, ack_num = 1001, flags = SHAM_ACK, window_size = 32768\<rparr>,
      data = [], data_len = 0\<rparr>
     = est_conn\<lparr>peer_window_size := 32768, last_byte_acked := 1001\<rparr>
   \<and> ack_num (header \<lparr>header = \<lparr>seq_num = 5001, ack_num = 1001, flags = SHAM_ACK,
                               window_size = 1024\<rparr>, data = [], data_len = 0\<rparr>)
     \<le> last_byte_acked (est_conn\<lparr>peer_window_size := 32768, last_byte_acked := 1001\<rparr>)
   \<and> sham_process_ack (est_conn\<lparr>peer_window_size := 32768, last_byte_acked := 1001\<rparr>)
       \<lparr>header = \<lparr>seq_num = 5001, ack_num = 1001, flags = SHAM_ACK, window_size = 1024\<rparr>,
        data = [], data_len = 0\<rparr>
     \<noteq> est_conn\<lparr>peer_window_size := 32768, last_byte_acked := 1001\<rparr>"
  proof -
    have "peer_window_size (est_conn\<lparr>peer_window_size := 1024, last_byte_acked := 1001\<rparr>)
        \<noteq> peer_window_size (est_conn\<lparr>peer_window_size := 32768, last_byte_acked := 1001\<rparr>)"
      by simp
    then have "est_conn\<lparr>peer_window_size := 1024, last_byte_acked := 1001\<rparr>
       \<noteq> est_conn\<lparr>peer_window_size := 32768, last_byte_acked := 1001\<rparr>"
      by metis
    then show ?thesis
      by (simp add: sham_process_ack_def Let_def est_conn_eq sham_create_connection_def
            ack_loop_stop)
  qed
  have second: "(case send_loop 3 wrap_conn [65, 66] 0 wrap_ack_world of
      Some (SendDone c1 w1 n) \<Rightarrow>
        (case sham_recv_packet_timeout c1 w1 of
           (GotPacket r p, c2, w2) \<Rightarrow>
             Some (n, flags (header p), ack_num (header p), last_byte_acked c2, send_base c2,
                   send_base (sham_process_ack c2 p), window_count (sham_process_ack c2 p))
         | _ \<Rightarrow> None)
    | _ \<Rightarrow> None)
   = Some (2, SHAM_ACK, 1, 4294967294, 4294967295, 1, 0)"
    by code_simp
  from first second show ?thesis
    by (simp only: simp_thms)
qed


section \<open>Flow control\<close>

lemma unat32_bound: "unat (s :: 32 word) < 4294967296"
  using unsigned_less [where 'a = nat and w = s] by simp

lemma unat16_bound: "unat (s :: 16 word) < 65536"
  using unsigned_less [where 'a = nat and w = s] by simp

lemma unat_ucast_16_32: "unat (ucast (x :: 16 word) :: 32 word) = unat x"
proof -
  have "unat (ucast x :: 32 word) = take_bit 32 (unat x)"
    by (simp add: unsigned_ucast_eq)
  also have "\<dots> = unat x"
    using unat16_bound [of x] by (intro take_bit_nat_eq_self) simp
  finally show ?thesis .
qed

lemma available_window_unat:
  "unat (available_window conn) = unat (peer_window_size conn) - unat (bytes_in_flight conn)"
proof -
  have u: "unat (ucast (peer_window_size conn) :: 32 word) = unat (peer_window_size conn)"
    by (rule unat_ucast_16_32)
  show ?thesis
  proof (cases "ucast (peer_window_size conn) > bytes_in_flight conn")
    case True
    then have "unat (ucast (peer_window_size conn) - bytes_in_flight conn)
        = unat (ucast (peer_window_size conn) :: 32 word) - unat (bytes_in_flight conn)"
      by (simp add: unat_sub)
    with True u show ?thesis by (simp add: available_window_def)
  next
    case False
    then have "unat (ucast (peer_window_size conn) :: 32 word) \<le> unat (bytes_in_flight conn)"
      by (simp add: word_less_nat_alt not_less)
    with False u show ?thesis by (simp add: available_window_def)
  qed
qed

lemma in_flight_after:
  fixes s a :: "32 word"
  assumes k: "0 < k" "k \<le> p - unat (if a \<le> s then s - a else 0)" and p: "p < 65536"
  shows "unat (if a \<le> s + of_nat k then s + of_nat k - a else 0) \<le> p"
proof -
  have kb: "k < 65536" using k p by linarith
  then have uk: "unat (of_nat k :: 32 word) = k"
    by (simp add: unat_of_nat)
  show ?thesis
  proof (cases "a \<le> s + of_nat k")
    case False
    then show ?thesis by simp
  next
    case True
    show ?thesis
    proof (cases "a \<le> s")
      case as: True
      then have f: "unat (s - a) = unat s - unat a" and le: "unat a \<le> unat s"
        by (simp_all add: unat_sub word_le_nat_alt)
      with k as have room: "unat s - unat a + k \<le> p" by simp
      show ?thesis
      proof (cases "unat s + k < 2 ^ 32")
        case nowrap: True
        then have "unat (s + of_nat k) = unat s + k"
          by (simp add: unat_word_ariths uk)
        with True have "unat (s + of_nat k - a) = unat s + k - unat a"
          by (simp add: unat_sub)
        with True room le show ?thesis by simp
      next
        case wrap: False
        have "unat (s + of_nat k) = (unat s + k) mod 2 ^ 32"
          by (simp add: unat_word_ariths uk)
        also have "\<dots> = unat s + k - 2 ^ 32"
          using wrap unat32_bound [of s] kb by (simp add: mod_if)
        finally have "unat (s + of_nat k) < unat a"
          using room le p unat32_bound [of s] kb wrap by simp
        with True show ?thesis by (simp add: word_le_nat_alt)
      qed
    next
      case sa: False
      then have lt: "unat s < unat a" by (simp add: word_le_nat_alt)
      from sa k have kp: "k \<le> p" by simp
      show ?thesis
      proof (cases "unat s + k < 2 ^ 32")
        case nowrap: True
        then have "unat (s + of_nat k) = unat s + k"
          by (simp add: unat_word_ariths uk)
        with True have "unat (s + of_nat k - a) = unat s + k - unat a"
          by (simp add: unat_sub)
        with True lt kp show ?thesis by simp
      next
        case wrap: False
        have "unat (s + of_nat k) = (unat s + k) mod 2 ^ 32"
          by (simp add: unat_word_ariths uk)
        also have "\<dots> = unat s + k - 2 ^ 32"
          using wrap unat32_bound [of s] kb by (simp add: mod_if)
        finally have "unat (s + of_nat k) < unat a"
          using lt kb wrap unat32_bound [of s] by simp
        with True show ?thesis by (simp add: word_le_nat_alt)
      qed
    qed
  qed
qed


lemma send_step_sent:
  assumes "send_step n conn dat bytes_sent w = Some (StepSent c' w' k)"
  shows "\<exists>c1 w1 t c2 w2.
           drain_acks n conn w = Some (c1, w1) \<and> sham_handle_timeout c1 w1 = (t, c2, w2)
         \<and> window_count c2 < SHAM_WINDOW_SIZE
         \<and> k = min SHAM_MAX_DATA_SIZE (length dat - bytes_sent)
         \<and> sham_can_send_data c2 k \<and> send_segment c2 dat bytes_sent k w2 = Inr (c', w')"
proof -
  from assms obtain c1 w1 where d: "drain_acks n conn w = Some (c1, w1)"
    by (auto simp: send_step_def split: option.splits)
  obtain t c2 w2 where h: "sham_handle_timeout c1 w1 = (t, c2, w2)"
    by (cases "sham_handle_timeout c1 w1") auto
  have chunk: "(if SHAM_MAX_DATA_SIZE < length dat - bytes_sent then SHAM_MAX_DATA_SIZE
                else length dat - bytes_sent) = min SHAM_MAX_DATA_SIZE (length dat - bytes_sent)"
    by (simp add: min_def)
  from assms d h show ?thesis
    by (auto simp: send_step_def Let_def chunk split: if_splits sum.splits)
qed

lemma send_segment_Inr:
  assumes "send_segment conn dat bytes_sent k w = Inr (c', w')"
  shows "\<exists>now.
     c' = conn\<lparr>last_byte_sent := last_byte_sent conn + of_nat k,
               send_window := (send_window conn)
                 [nat ((window_start conn + window_count conn) mod SHAM_WINDOW_SIZE) :=
                    \<lparr>packet = sham_create_packet_with_conn conn (send_seq conn) (recv_seq conn) 0
                                (Some (drop bytes_sent dat)) k,
                     send_time = now, retries = 0, acked = False\<rparr>],
               window_count := window_count conn + 1,
               send_seq := send_seq conn + of_nat k\<rparr>"
  using assms
  by (auto simp: send_segment_def sham_update_flow_control_def Let_def gettimeofday_def
           split: prod.splits if_splits)

text \<open>
  C4, amended. In \<^verbatim>\<open>sham_send\<close> a new data segment of \<open>k\<close> bytes (at most 1024) is sent
  only when \<open>k\<close> does not exceed \<open>peer_window_size\<close> minus the bytes in flight before it
  (\<open>last_byte_sent - last_byte_acked\<close>, zero when the counters are inverted), so right
  after it is sent the bytes in flight do not exceed \<open>peer_window_size\<close>. This is no
  invariant of every later moment: an acknowledgment that advertises a smaller window
  lowers \<open>peer_window_size\<close> below what is in flight already. Retransmissions are not
  gated.
\<close>

theorem flow_gate_on_emission:
  assumes step: "send_step n conn dat bytes_sent w = Some (StepSent c' w' k)"
    and more: "bytes_sent < length dat"
  shows "0 < k \<and> k \<le> SHAM_MAX_DATA_SIZE
       \<and> k \<le> unat (peer_window_size c')
              - unat (bytes_in_flight (c'\<lparr>last_byte_sent := last_byte_sent c' - of_nat k\<rparr>))
       \<and> unat (bytes_in_flight c') \<le> unat (peer_window_size c')"
proof -
  from send_step_sent [OF step] obtain c2 w2 where
    k: "k = min SHAM_MAX_DATA_SIZE (length dat - bytes_sent)"
    and gate: "sham_can_send_data c2 k"
    and seg: "send_segment c2 dat bytes_sent k w2 = Inr (c', w')"
    by blast
  from k more have kpos: "0 < k" "k \<le> SHAM_MAX_DATA_SIZE" by simp_all
  from send_segment_Inr [OF seg] have
    f: "last_byte_sent c' = last_byte_sent c2 + of_nat k"
       "last_byte_acked c' = last_byte_acked c2" "peer_window_size c' = peer_window_size c2"
    by auto
  then have before: "bytes_in_flight (c'\<lparr>last_byte_sent := last_byte_sent c' - of_nat k\<rparr>)
      = bytes_in_flight c2"
    by (simp add: bytes_in_flight_def)
  from gate have g: "k \<le> unat (peer_window_size c2) - unat (bytes_in_flight c2)"
    by (simp add: sham_can_send_data_def available_window_unat)
  have "unat (bytes_in_flight c') \<le> unat (peer_window_size c2)"
    unfolding bytes_in_flight_def f
    by (rule in_flight_after [OF kpos(1) g [unfolded bytes_in_flight_def] unat16_bound])
  with kpos g before f show ?thesis by simp
qed


section \<open>The sender keeps its window in order\<close>

lemma touch_entry_end:
  "entry_end ((xs[k := (xs ! k)\<lparr>retries := r, send_time := t\<rparr>]) ! j) = entry_end (xs ! j)"
  by (cases "k < length xs") (auto simp: nth_list_update list_update_beyond entry_end_def)

lemma acked_entry_end:
  "entry_end ((xs[k := (xs ! k)\<lparr>acked := True\<rparr>]) ! j) = entry_end (xs ! j)"
  by (cases "k < length xs") (auto simp: nth_list_update list_update_beyond entry_end_def)

lemma send_ok_touch:
  "send_ok (conn\<lparr>send_window := (send_window conn)
              [k := (send_window conn ! k)\<lparr>retries := r, send_time := t\<rparr>]\<rparr>) = send_ok conn"
  by (simp add: send_ok_def touch_entry_end)

lemma timeout_loop_done:
  "\<not> i < window_count conn \<Longrightarrow> timeout_loop now i conn w = (0, conn, w)"
  by (subst timeout_loop.simps) simp

lemma timeout_loop_acked:
  "i < window_count conn \<Longrightarrow>
   acked (send_window conn ! nat ((window_start conn + i) mod SHAM_WINDOW_SIZE)) \<Longrightarrow>
     timeout_loop now i conn w = timeout_loop now (i + 1) conn w"
  by (subst timeout_loop.simps) simp

lemma timeout_loop_fresh:
  "i < window_count conn \<Longrightarrow>
   \<not> acked (send_window conn ! nat ((window_start conn + i) mod SHAM_WINDOW_SIZE)) \<Longrightarrow>
   sham_is_timeout (send_time (send_window conn
       ! nat ((window_start conn + i) mod SHAM_WINDOW_SIZE))) SHAM_RTO_MS w = (False, w1) \<Longrightarrow>
     timeout_loop now i conn w = timeout_loop now (i + 1) conn w1"
  by (subst timeout_loop.simps) simp

lemma timeout_loop_exhausted:
  "i < window_count conn \<Longrightarrow>
   \<not> acked (send_window conn ! nat ((window_start conn + i) mod SHAM_WINDOW_SIZE)) \<Longrightarrow>
   sham_is_timeout (send_time (send_window conn
       ! nat ((window_start conn + i) mod SHAM_WINDOW_SIZE))) SHAM_RTO_MS w = (True, w1) \<Longrightarrow>
   SHAM_MAX_RETRIES \<le> retries (send_window conn
       ! nat ((window_start conn + i) mod SHAM_WINDOW_SIZE)) \<Longrightarrow>
     timeout_loop now i conn w = (-1, conn, w1)"
  by (subst timeout_loop.simps) simp

lemma timeout_loop_retransmit:
  "i < window_count conn \<Longrightarrow>
   \<not> acked (send_window conn ! nat ((window_start conn + i) mod SHAM_WINDOW_SIZE)) \<Longrightarrow>
   sham_is_timeout (send_time (send_window conn
       ! nat ((window_start conn + i) mod SHAM_WINDOW_SIZE))) SHAM_RTO_MS w = (True, w1) \<Longrightarrow>
   \<not> SHAM_MAX_RETRIES \<le> retries (send_window conn
       ! nat ((window_start conn + i) mod SHAM_WINDOW_SIZE)) \<Longrightarrow>
   sham_send_packet conn (packet (send_window conn
       ! nat ((window_start conn + i) mod SHAM_WINDOW_SIZE))) w1 = (r, w2) \<Longrightarrow>
     timeout_loop now i conn w =
       (if r < 0 then (-1, conn, w2)
        else timeout_loop now (i + 1)
               (conn\<lparr>send_window := (send_window conn)
                  [nat ((window_start conn + i) mod SHAM_WINDOW_SIZE) :=
                     (send_window conn ! nat ((window_start conn + i) mod SHAM_WINDOW_SIZE))
                       \<lparr>retries := retries (send_window conn
                            ! nat ((window_start conn + i) mod SHAM_WINDOW_SIZE)) + 1,
                        send_time := now\<rparr>]\<rparr>) w2)"
  by (subst timeout_loop.simps) (simp add: Let_def)

lemma timeout_loop_send_ok:
  "send_ok conn \<Longrightarrow> timeout_loop now i conn w = (r, c', w') \<Longrightarrow>
     send_ok c' \<and> state c' = state conn"
proof (induction "nat (window_count conn - i)" arbitrary: i conn w)
  case 0
  then have "\<not> i < window_count conn" by simp
  from timeout_loop_done [OF this] 0 show ?case by simp
next
  case (Suc n)
  then have lt: "i < window_count conn" by linarith
  let ?idx = "nat ((window_start conn + i) mod SHAM_WINDOW_SIZE)"
  let ?e = "send_window conn ! ?idx"
  let ?c = "conn\<lparr>send_window := (send_window conn)
              [?idx := ?e\<lparr>retries := retries ?e + 1, send_time := now\<rparr>]\<rparr>"
  have n: "n = nat (window_count conn - (i + 1))" "n = nat (window_count ?c - (i + 1))"
    using Suc.hyps(2) by simp_all
  have okc: "send_ok ?c" using Suc.prems(1) by (simp add: send_ok_touch)
  show ?case
  proof (cases "acked ?e")
    case True
    from timeout_loop_acked [OF lt True] Suc.prems(2)
    have "timeout_loop now (i + 1) conn w = (r, c', w')" by simp
    from Suc.hyps(1) [OF n(1) Suc.prems(1) this] show ?thesis .
  next
    case False
    obtain t w1 where to: "sham_is_timeout (send_time ?e) SHAM_RTO_MS w = (t, w1)"
      by (cases "sham_is_timeout (send_time ?e) SHAM_RTO_MS w") auto
    show ?thesis
    proof (cases t)
      case f: False
      with to have tf: "sham_is_timeout (send_time ?e) SHAM_RTO_MS w = (False, w1)" by simp
      from timeout_loop_fresh [OF lt False tf] Suc.prems(2)
      have "timeout_loop now (i + 1) conn w1 = (r, c', w')" by simp
      from Suc.hyps(1) [OF n(1) Suc.prems(1) this] show ?thesis .
    next
      case t: True
      with to have tt: "sham_is_timeout (send_time ?e) SHAM_RTO_MS w = (True, w1)" by simp
      show ?thesis
      proof (cases "SHAM_MAX_RETRIES \<le> retries ?e")
        case True
        from timeout_loop_exhausted [OF lt False tt True] Suc.prems
        show ?thesis by simp
      next
        case more: False
        obtain r2 w2 where sp: "sham_send_packet conn (packet ?e) w1 = (r2, w2)"
          by (cases "sham_send_packet conn (packet ?e) w1") auto
        note unf = timeout_loop_retransmit [OF lt False tt more sp, of now]
        show ?thesis
        proof (cases "r2 < 0")
          case True
          with unf Suc.prems show ?thesis by simp
        next
          case False
          with unf Suc.prems(2) have "timeout_loop now (i + 1) ?c w2 = (r, c', w')" by simp
          from Suc.hyps(1) [OF n(2) okc this] show ?thesis by simp
        qed
      qed
    qed
  qed
qed

lemma handle_timeout_send_ok:
  "send_ok conn \<Longrightarrow> sham_handle_timeout conn w = (r, c', w') \<Longrightarrow>
     send_ok c' \<and> state c' = state conn"
  by (auto simp: sham_handle_timeout_def gettimeofday_def dest: timeout_loop_send_ok)

lemma ring_last:
  "((s + 1) mod 10 + c - 2) mod 10 = (s + c - 1) mod (10 :: int)"
proof -
  have "((s + 1) mod 10 + (c - 2)) mod 10 = ((s + 1) + (c - 2)) mod 10"
    by (rule mod_add_left_eq)
  then show ?thesis by (simp add: algebra_simps)
qed

lemma ack_loop_send_ok:
  "send_ok conn \<Longrightarrow> send_ok (ack_window_loop ackn conn)"
proof (induction "nat (window_count conn)" arbitrary: conn)
  case 0
  then have "ack_window_loop ackn conn = conn"
    by (intro ack_loop_stop) simp
  with 0 show ?case by simp
next
  case (Suc n)
  let ?first = "send_window conn ! nat (window_start conn)"
  show ?case
  proof (cases "entry_end ?first \<le> ackn")
    case False
    then have "ack_window_loop ackn conn = conn"
      by (intro ack_loop_stop) (simp add: not_le)
    with Suc.prems show ?thesis by simp
  next
    case True
    let ?c = "conn\<lparr>send_window := (send_window conn)
                   [nat (window_start conn) := ?first\<lparr>acked := True\<rparr>],
               send_base := entry_end ?first,
               window_start := (window_start conn + 1) mod SHAM_WINDOW_SIZE,
               window_count := window_count conn - 1\<rparr>"
    from Suc.hyps(2) have pos: "0 < window_count conn" by linarith
    from ack_loop_step [OF pos True] have eq: "ack_window_loop ackn conn = ack_window_loop ackn ?c" .
    have n: "n = nat (window_count ?c)"
      using Suc.hyps(2) by simp
    have "send_ok ?c"
    proof (cases "window_count conn = 1")
      case True
      with Suc.prems show ?thesis
        by (auto simp: send_ok_def)
    next
      case False
      with Suc.prems pos show ?thesis
        by (simp add: send_ok_def acked_entry_end ring_last)
    qed
    from Suc.hyps(1) [OF n this] eq show ?thesis by simp
  qed
qed

lemma process_ack_send_ok:
  "send_ok conn \<Longrightarrow> send_ok (sham_process_ack conn p) \<and> state (sham_process_ack conn p) = state conn"
proof -
  assume ok: "send_ok conn"
  let ?c = "conn\<lparr>peer_window_size := window_size (header p)\<rparr>"
  let ?c2 = "if ack_num (header p) > last_byte_acked ?c
             then ?c\<lparr>last_byte_acked := ack_num (header p)\<rparr> else ?c"
  from ok have "send_ok ?c2" by (simp add: send_ok_def)
  then have "send_ok (ack_window_loop (ack_num (header p)) ?c2)"
    by (rule ack_loop_send_ok)
  then show ?thesis
    by (simp add: sham_process_ack_def Let_def ack_loop_fields)
qed

lemma recv_packet_timeout_send_ok:
  "sham_recv_packet_timeout conn w = (res, c1, w1) \<Longrightarrow>
     send_ok c1 = send_ok conn \<and> state c1 = state conn"
  by (auto simp: sham_recv_packet_timeout_def sham_recv_packet_def Let_def send_ok_def
           split: select_result.splits recvfrom_result.splits if_splits prod.splits bool.splits)

lemma drain_acks_send_ok:
  "send_ok conn \<Longrightarrow> drain_acks n conn w = Some (c', w') \<Longrightarrow>
     send_ok c' \<and> state c' = state conn"
proof (induction n arbitrary: conn w)
  case 0
  then show ?case by simp
next
  case (Suc n)
  obtain res c1 w1 where rp: "sham_recv_packet_timeout conn w = (res, c1, w1)"
    by (cases "sham_recv_packet_timeout conn w") auto
  from recv_packet_timeout_send_ok [OF rp] Suc.prems(1)
  have ok1: "send_ok c1" and st1: "state c1 = state conn" by simp_all
  show ?case
  proof (cases res)
    case (NoPacket r)
    with Suc.prems(2) rp ok1 st1 show ?thesis by simp
  next
    case (GotPacket r pkt)
    show ?thesis
    proof (cases "r > 0")
      case False
      with Suc.prems(2) rp GotPacket ok1 st1 show ?thesis by simp
    next
      case True
      let ?c2 = "if flags (header pkt) AND SHAM_ACK \<noteq> 0 then sham_process_ack c1 pkt else c1"
      from process_ack_send_ok [OF ok1, of pkt] ok1 st1
      have ok2: "send_ok ?c2" and st2: "state ?c2 = state conn" by simp_all
      from Suc.prems(2) rp GotPacket True have "drain_acks n ?c2 w1 = Some (c', w')"
        by simp
      from Suc.IH [OF ok2 this] st2 show ?thesis by simp
    qed
  qed
qed

lemma send_segment_send_ok:
  assumes ok: "send_ok conn" and room: "window_count conn < SHAM_WINDOW_SIZE"
    and k: "0 < k" "k \<le> SHAM_MAX_DATA_SIZE"
    and seg: "send_segment conn dat bytes_sent k w = Inr (c', w')"
  shows "send_ok c' \<and> state c' = state conn"
proof -
  let ?idx = "nat ((window_start conn + window_count conn) mod SHAM_WINDOW_SIZE)"
  let ?pkt = "sham_create_packet_with_conn conn (send_seq conn) (recv_seq conn) 0
                (Some (drop bytes_sent dat)) k"
  from send_segment_Inr [OF seg] obtain now where
    c': "c' = conn\<lparr>last_byte_sent := last_byte_sent conn + of_nat k,
               send_window := (send_window conn)
                 [?idx := \<lparr>packet = ?pkt, send_time = now, retries = 0, acked = False\<rparr>],
               window_count := window_count conn + 1,
               send_seq := send_seq conn + of_nat k\<rparr>"
    by blast
  have idx: "?idx < length (send_window conn)"
    using ok by (simp add: send_ok_def)
  have pkt: "ntohl (seq_num (header ?pkt)) = send_seq conn" "data_len ?pkt = k"
    using k by (simp_all add: sham_create_packet_with_conn_def sham_create_packet_def Let_def)
  have "entry_end \<lparr>packet = ?pkt, send_time = now, retries = 0, acked = False\<rparr>
      = send_seq conn + of_nat k"
    by (simp add: entry_end_def pkt)
  with ok room idx show ?thesis
    unfolding c' by (simp add: send_ok_def)
qed

lemma send_step_unfold:
  assumes "drain_acks n conn w = Some (c1, w1)" "sham_handle_timeout c1 w1 = (t, c2, w2)"
  shows "send_step n conn dat bytes_sent w =
           (if SHAM_WINDOW_SIZE \<le> window_count c2
               \<or> \<not> sham_can_send_data c2 (min SHAM_MAX_DATA_SIZE (length dat - bytes_sent))
            then Some (StepWait c2 w2)
            else case send_segment c2 dat bytes_sent
                        (min SHAM_MAX_DATA_SIZE (length dat - bytes_sent)) w2 of
                   Inl w3 \<Rightarrow> Some (StepFailed c2 w3)
                 | Inr (c3, w3) \<Rightarrow>
                     Some (StepSent c3 w3 (min SHAM_MAX_DATA_SIZE (length dat - bytes_sent))))"
proof -
  have chunk: "(if SHAM_MAX_DATA_SIZE < length dat - bytes_sent then SHAM_MAX_DATA_SIZE
                else length dat - bytes_sent)
               = min SHAM_MAX_DATA_SIZE (length dat - bytes_sent)"
    by (simp add: min_def)
  show ?thesis
    unfolding send_step_def assms option.case prod.case Let_def chunk
    by simp
qed

lemma send_step_send_ok:
  assumes ok: "send_ok conn" and more: "bytes_sent < length dat"
    and step: "send_step n conn dat bytes_sent w = Some res"
  shows "case res of
           StepWait c' w' \<Rightarrow> send_ok c' \<and> state c' = state conn
         | StepSent c' w' k \<Rightarrow>
             send_ok c' \<and> state c' = state conn \<and> bytes_sent + k \<le> length dat
         | StepFailed c' w' \<Rightarrow> send_ok c' \<and> state c' = state conn"
proof -
  from step obtain c1 w1 where d: "drain_acks n conn w = Some (c1, w1)"
    by (auto simp: send_step_def split: option.splits)
  obtain t c2 w2 where h: "sham_handle_timeout c1 w1 = (t, c2, w2)"
    by (cases "sham_handle_timeout c1 w1") auto
  from drain_acks_send_ok [OF ok d] have ok1: "send_ok c1" and st1: "state c1 = state conn"
    by simp_all
  from handle_timeout_send_ok [OF ok1 h] st1 have ok2: "send_ok c2" and st2: "state c2 = state conn"
    by simp_all
  let ?k = "min SHAM_MAX_DATA_SIZE (length dat - bytes_sent)"
  from more have k: "0 < ?k" "?k \<le> SHAM_MAX_DATA_SIZE" "bytes_sent + ?k \<le> length dat"
    by simp_all
  note unf = send_step_unfold [OF d h, of dat bytes_sent]
  show ?thesis
  proof (cases "SHAM_WINDOW_SIZE \<le> window_count c2 \<or> \<not> sham_can_send_data c2 ?k")
    case True
    with step unf have "res = StepWait c2 w2"
      by simp
    with ok2 st2 show ?thesis by simp
  next
    case False
    then have room: "window_count c2 < SHAM_WINDOW_SIZE" by simp
    show ?thesis
    proof (cases "send_segment c2 dat bytes_sent ?k w2")
      case (Inl w3)
      with step unf False have "res = StepFailed c2 w3"
        by simp
      with ok2 st2 show ?thesis by simp
    next
      case (Inr cw)
      obtain c3 w3 where cw: "cw = (c3, w3)" by (cases cw) auto
      with Inr step unf False have "res = StepSent c3 w3 ?k"
        by simp
      moreover from send_segment_send_ok [OF ok2 room k(1,2) Inr [unfolded cw]] st2
      have "send_ok c3 \<and> state c3 = state conn" by simp
      ultimately show ?thesis using k(3) by simp
    qed
  qed
qed

lemma send_loop_send_ok:
  "send_ok conn \<Longrightarrow> bytes_sent \<le> length dat \<Longrightarrow>
   send_loop n conn dat bytes_sent w = Some (SendDone c' w' sent) \<Longrightarrow>
     send_ok c' \<and> state c' = state conn \<and> sent = length dat"
proof (induction n arbitrary: conn bytes_sent w)
  case 0
  then show ?case by simp
next
  case (Suc n)
  show ?case
  proof (cases "bytes_sent < length dat")
    case False
    with Suc.prems show ?thesis by simp
  next
    case True
    with Suc.prems(3) obtain res where step: "send_step n conn dat bytes_sent w = Some res"
      by (auto split: option.splits)
    note inv = send_step_send_ok [OF Suc.prems(1) True step]
    show ?thesis
    proof (cases res)
      case (StepWait c1 w1)
      with Suc.prems(3) True step have "send_loop n c1 dat bytes_sent w1 = Some (SendDone c' w' sent)"
        by simp
      moreover from inv StepWait have "send_ok c1" "state c1 = state conn" by simp_all
      ultimately show ?thesis using Suc.IH [of c1 bytes_sent w1] Suc.prems(2) by simp
    next
      case (StepSent c1 w1 k)
      with Suc.prems(3) True step
      have "send_loop n c1 dat (bytes_sent + k) w1 = Some (SendDone c' w' sent)"
        by simp
      moreover from inv StepSent have "send_ok c1" "state c1 = state conn"
        "bytes_sent + k \<le> length dat" by simp_all
      ultimately show ?thesis using Suc.IH [of c1 "bytes_sent + k" w1] by simp
    next
      case (StepFailed c1 w1)
      with Suc.prems(3) True step show ?thesis by simp
    qed
  qed
qed

lemma wait_acks_send_ok:
  "send_ok conn \<Longrightarrow> wait_acks n conn w = Some (c', w') \<Longrightarrow>
     send_ok c' \<and> state c' = state conn \<and> window_count c' \<le> 0"
proof (induction n arbitrary: conn w)
  case 0
  then show ?case by simp
next
  case (Suc n)
  show ?case
  proof (cases "0 < window_count conn")
    case False
    with Suc.prems show ?thesis by simp
  next
    case True
    obtain res c1 w1 where rp: "sham_recv_packet_timeout conn w = (res, c1, w1)"
      by (cases "sham_recv_packet_timeout conn w") auto
    from recv_packet_timeout_send_ok [OF rp] Suc.prems(1)
    have ok1: "send_ok c1" and st1: "state c1 = state conn" by simp_all
    let ?c2 = "case res of
                 GotPacket r ack_packet \<Rightarrow>
                   if r > 0 \<and> flags (header ack_packet) AND SHAM_ACK \<noteq> 0
                   then sham_process_ack c1 ack_packet else c1
               | NoPacket r \<Rightarrow> c1"
    have ok2: "send_ok ?c2 \<and> state ?c2 = state conn"
      using ok1 st1 process_ack_send_ok [OF ok1] by (cases res) simp_all
    obtain t c3 w2 where h: "sham_handle_timeout ?c2 w1 = (t, c3, w2)"
      by (cases "sham_handle_timeout ?c2 w1") auto
    from handle_timeout_send_ok [OF _ h] ok2 have ok3: "send_ok c3" "state c3 = state conn"
      by simp_all
    from Suc.prems(2) True rp h have "wait_acks n c3 w2 = Some (c', w')"
      by (simp add: Let_def)
    from Suc.IH [OF ok3(1) this] ok3(2) show ?thesis by simp
  qed
qed

text \<open>
  C2, amended. On an established connection whose send window is in order (\<open>send_ok\<close>,
  which \<^verbatim>\<open>sham_connect\<close> establishes and \<^verbatim>\<open>sham_send\<close> keeps), for an input of fewer
  than 2^31 bytes: when \<^verbatim>\<open>sham_send\<close> returns and the value is not negative, the value
  is the length of the input, \<open>window_count\<close> is 0 and \<open>send_base = send_seq\<close>. The value
  returned is an \<^verbatim>\<open>int\<close>: a longer input is counted modulo 2^32.
\<close>

theorem sham_send_success:
  assumes run: "sham_send fuel conn dat w = Some (r, c', w')"
    and est: "state conn = SHAM_ESTABLISHED"
    and ok: "send_ok conn"
    and len: "length dat < 2 ^ 31"
    and no_error: "0 \<le> r"
  shows "r = int (length dat) \<and> window_count c' = 0 \<and> send_base c' = send_seq c'"
proof -
  from run est no_error obtain c1 w1 sent where
    loop: "send_loop fuel conn dat 0 w = Some (SendDone c1 w1 sent)"
    and wait: "wait_acks fuel c1 w1 = Some (c', w')"
    and r: "r = sint (word_of_nat sent :: 32 word)"
    by (auto simp: sham_send_def split: option.splits send_phase.splits)
  from send_loop_send_ok [OF ok _ loop] have ok1: "send_ok c1" and sent: "sent = length dat"
    by simp_all
  from wait_acks_send_ok [OF ok1 wait] have ok2: "send_ok c'" and empty: "window_count c' \<le> 0"
    by simp_all
  from ok2 empty have "window_count c' = 0" "send_base c' = send_seq c'"
    by (auto simp: send_ok_def)
  moreover have "sint (word_of_nat (length dat) :: 32 word) = int (length dat)"
    using len by (simp add: signed_of_nat signed_take_bit_int_eq_self)
  ultimately show ?thesis using r sent by simp
qed


lemma connect_send_ok:
  assumes "sham_connect (sham_create_connection isn) sock host w = (0, c', w')"
  shows "send_ok c' \<and> state c' = SHAM_ESTABLISHED"
proof -
  have "send_ok c' \<and> state c' = SHAM_ESTABLISHED"
    if "sham_connect conn sock host w = (0, c', w')"
      and "length (send_window conn) = 10" "window_start conn = 0" "window_count conn = 0"
    for conn
    using that
    by (auto simp: sham_connect_def Let_def sham_recv_packet_timeout_def sham_recv_packet_def
          send_ok_def
          split: if_splits option.splits prod.splits recv_outcome.splits select_result.splits
                 recvfrom_result.splits bool.splits)
  from this [OF assms] show ?thesis
    by (simp add: sham_create_connection_def)
qed

lemma sham_send_keeps_send_ok:
  assumes run: "sham_send fuel conn dat w = Some (r, c', w')" and ok: "send_ok conn"
  shows "send_ok c' \<and> state c' = state conn"
proof (cases "state conn = SHAM_ESTABLISHED")
  case False
  with run ok show ?thesis by (auto simp: sham_send_def)
next
  case True
  have loop_any: "send_loop n c d b v = Some ph \<Longrightarrow> send_ok c \<Longrightarrow>
      (case ph of SendFailed c1 w1 \<Rightarrow> send_ok c1 \<and> state c1 = state c
                | SendDone c1 w1 k \<Rightarrow> send_ok c1 \<and> state c1 = state c)" for n c d b v ph
  proof (induction n arbitrary: c b v)
    case 0
    then show ?case by simp
  next
    case (Suc n)
    show ?case
    proof (cases "b < length d")
      case False
      with Suc.prems show ?thesis by auto
    next
      case True
      with Suc.prems(1) obtain res where step: "send_step n c d b v = Some res"
        by (auto split: option.splits)
      note inv = send_step_send_ok [OF Suc.prems(2) True step]
      show ?thesis
      proof (cases res)
        case (StepWait c1 w1)
        with Suc.prems(1) True step have "send_loop n c1 d b w1 = Some ph" by simp
        from Suc.IH [OF this] inv StepWait show ?thesis
          by (auto split: send_phase.splits)
      next
        case (StepSent c1 w1 k)
        with Suc.prems(1) True step have "send_loop n c1 d (b + k) w1 = Some ph" by simp
        from Suc.IH [OF this] inv StepSent show ?thesis
          by (auto split: send_phase.splits)
      next
        case (StepFailed c1 w1)
        with Suc.prems(1) True step inv show ?thesis by auto
      qed
    qed
  qed
  from run True obtain ph where loop: "send_loop fuel conn dat 0 w = Some ph"
    by (auto simp: sham_send_def split: option.splits)
  show ?thesis
  proof (cases ph)
    case (SendFailed c1 w1)
    with run True loop loop_any [OF loop ok] show ?thesis
      by (auto simp: sham_send_def)
  next
    case (SendDone c1 w1 k)
    with run True loop obtain "wait_acks fuel c1 w1 = Some (c', w')"
      by (auto simp: sham_send_def split: option.splits)
    moreover from loop_any [OF loop ok] SendDone have "send_ok c1" "state c1 = state conn"
      by simp_all
    ultimately show ?thesis using wait_acks_send_ok by metis
  qed
qed


section \<open>Retransmission never ends a transfer\<close>

text \<open>
  Nothing the sender does changes the script of \<^verbatim>\<open>sendto\<close>; and as long as every
  \<^verbatim>\<open>sendto\<close> succeeds, \<^verbatim>\<open>sham_send\<close> has no way to return an error: the value of
  \<^verbatim>\<open>sham_handle_timeout\<close> is dropped in both of its loops.
\<close>

lemma is_timeout_script:
  "sham_is_timeout start ms w = (b, w1) \<Longrightarrow> sendto_script w1 = sendto_script w"
  by (auto simp: sham_is_timeout_def gettimeofday_def Let_def)

lemma send_packet_script:
  "sham_send_packet conn pkt w = (r, w1) \<Longrightarrow> sendto_script w1 = sendto_script w"
  by (auto simp: sham_send_packet_def Let_def split: if_splits)

lemma recv_packet_timeout_script:
  "sham_recv_packet_timeout conn w = (res, c1, w1) \<Longrightarrow> sendto_script w1 = sendto_script w"
  by (auto simp: sham_recv_packet_timeout_def sham_recv_packet_def sham_should_drop_packet_def
           Let_def
           split: select_result.splits recvfrom_result.splits if_splits prod.splits bool.splits)

lemma timeout_loop_script:
  "timeout_loop now i conn w = (r, c', w') \<Longrightarrow> sendto_script w' = sendto_script w"
proof (induction "nat (window_count conn - i)" arbitrary: i conn w)
  case 0
  then have "\<not> i < window_count conn" by simp
  from timeout_loop_done [OF this] 0 show ?case by simp
next
  case (Suc n)
  then have lt: "i < window_count conn" by linarith
  let ?idx = "nat ((window_start conn + i) mod SHAM_WINDOW_SIZE)"
  let ?e = "send_window conn ! ?idx"
  let ?c = "conn\<lparr>send_window := (send_window conn)
              [?idx := ?e\<lparr>retries := retries ?e + 1, send_time := now\<rparr>]\<rparr>"
  have n: "n = nat (window_count conn - (i + 1))" "n = nat (window_count ?c - (i + 1))"
    using Suc.hyps(2) by simp_all
  show ?case
  proof (cases "acked ?e")
    case True
    from timeout_loop_acked [OF lt True] Suc.prems
    have "timeout_loop now (i + 1) conn w = (r, c', w')" by simp
    from Suc.hyps(1) [OF n(1) this] show ?thesis .
  next
    case False
    obtain t w1 where to: "sham_is_timeout (send_time ?e) SHAM_RTO_MS w = (t, w1)"
      by (cases "sham_is_timeout (send_time ?e) SHAM_RTO_MS w") auto
    note s1 = is_timeout_script [OF to]
    show ?thesis
    proof (cases t)
      case f: False
      with to have tf: "sham_is_timeout (send_time ?e) SHAM_RTO_MS w = (False, w1)" by simp
      from timeout_loop_fresh [OF lt False tf] Suc.prems
      have "timeout_loop now (i + 1) conn w1 = (r, c', w')" by simp
      from Suc.hyps(1) [OF n(1) this] s1 show ?thesis by simp
    next
      case t: True
      with to have tt: "sham_is_timeout (send_time ?e) SHAM_RTO_MS w = (True, w1)" by simp
      show ?thesis
      proof (cases "SHAM_MAX_RETRIES \<le> retries ?e")
        case True
        from timeout_loop_exhausted [OF lt False tt True] Suc.prems s1
        show ?thesis by simp
      next
        case more: False
        obtain r2 w2 where sp: "sham_send_packet conn (packet ?e) w1 = (r2, w2)"
          by (cases "sham_send_packet conn (packet ?e) w1") auto
        note s2 = send_packet_script [OF sp]
        note unf = timeout_loop_retransmit [OF lt False tt more sp, of now]
        show ?thesis
        proof (cases "r2 < 0")
          case True
          with unf Suc.prems s1 s2 show ?thesis by simp
        next
          case False
          with unf Suc.prems have "timeout_loop now (i + 1) ?c w2 = (r, c', w')" by simp
          from Suc.hyps(1) [OF n(2) this] s1 s2 show ?thesis by simp
        qed
      qed
    qed
  qed
qed

lemma handle_timeout_script:
  "sham_handle_timeout conn w = (r, c', w') \<Longrightarrow> sendto_script w' = sendto_script w"
  by (auto simp: sham_handle_timeout_def gettimeofday_def dest: timeout_loop_script)

lemma drain_acks_script:
  "drain_acks n conn w = Some (c', w') \<Longrightarrow> sendto_script w' = sendto_script w"
proof (induction n arbitrary: conn w)
  case 0
  then show ?case by simp
next
  case (Suc n)
  obtain res c1 w1 where rp: "sham_recv_packet_timeout conn w = (res, c1, w1)"
    by (cases "sham_recv_packet_timeout conn w") auto
  note s1 = recv_packet_timeout_script [OF rp]
  show ?case
  proof (cases res)
    case (NoPacket r)
    with Suc.prems rp s1 show ?thesis by simp
  next
    case (GotPacket r pkt)
    show ?thesis
    proof (cases "r > 0")
      case False
      with Suc.prems rp GotPacket s1 show ?thesis by simp
    next
      case True
      let ?c2 = "if flags (header pkt) AND SHAM_ACK \<noteq> 0 then sham_process_ack c1 pkt else c1"
      from Suc.prems rp GotPacket True have "drain_acks n ?c2 w1 = Some (c', w')"
        by simp
      from Suc.IH [OF this] s1 show ?thesis by simp
    qed
  qed
qed

lemma send_step_never_fails:
  assumes tx: "sendto_script w = (\<lambda>i. True)"
    and step: "send_step n conn dat bytes_sent w = Some res"
  shows "case res of
           StepWait c' w' \<Rightarrow> sendto_script w' = (\<lambda>i. True)
         | StepSent c' w' k \<Rightarrow> sendto_script w' = (\<lambda>i. True)
         | StepFailed c' w' \<Rightarrow> False"
proof -
  from step obtain c1 w1 where d: "drain_acks n conn w = Some (c1, w1)"
    by (auto simp: send_step_def split: option.splits)
  obtain t c2 w2 where h: "sham_handle_timeout c1 w1 = (t, c2, w2)"
    by (cases "sham_handle_timeout c1 w1") auto
  from drain_acks_script [OF d] handle_timeout_script [OF h] tx
  have tx2: "sendto_script w2 = (\<lambda>i. True)" by simp
  let ?k = "min SHAM_MAX_DATA_SIZE (length dat - bytes_sent)"
  note unf = send_step_unfold [OF d h, of dat bytes_sent]
  have seg: "\<exists>c3 w3. send_segment c2 dat bytes_sent ?k w2 = Inr (c3, w3)
      \<and> sendto_script w3 = (\<lambda>i. True)"
    using tx2 by (simp add: send_segment_def sham_send_packet_def Let_def gettimeofday_def)
  show ?thesis
  proof (cases "SHAM_WINDOW_SIZE \<le> window_count c2 \<or> \<not> sham_can_send_data c2 ?k")
    case True
    with step unf have "res = StepWait c2 w2" by simp
    with tx2 show ?thesis by simp
  next
    case False
    from seg obtain c3 w3 where "send_segment c2 dat bytes_sent ?k w2 = Inr (c3, w3)"
      and "sendto_script w3 = (\<lambda>i. True)" by blast
    with step unf False show ?thesis by auto
  qed
qed

lemma send_loop_never_fails:
  "sendto_script w = (\<lambda>i. True) \<Longrightarrow> send_loop n conn dat bytes_sent w \<noteq> Some (SendFailed c' w')"
proof (induction n arbitrary: conn bytes_sent w)
  case 0
  then show ?case by simp
next
  case (Suc n)
  show ?case
  proof (cases "bytes_sent < length dat")
    case False
    then show ?thesis by simp
  next
    case True
    show ?thesis
    proof (cases "send_step n conn dat bytes_sent w")
      case None
      with True show ?thesis by simp
    next
      case (Some res)
      note inv = send_step_never_fails [OF Suc.prems Some]
      show ?thesis
      proof (cases res)
        case (StepWait c1 w1)
        with inv Suc.IH [of w1 c1 bytes_sent] True Some show ?thesis by simp
      next
        case (StepSent c1 w1 k)
        with inv Suc.IH [of w1 c1 "bytes_sent + k"] True Some show ?thesis by simp
      next
        case (StepFailed c1 w1)
        with inv show ?thesis by simp
      qed
    qed
  qed
qed

lemma sham_send_error_only_from_sendto:
  assumes run: "sham_send fuel conn dat w = Some (r, c', w')"
    and est: "state conn = SHAM_ESTABLISHED"
    and tx: "sendto_script w = (\<lambda>i. True)"
    and len: "length dat < 2 ^ 31"
    and ok: "send_ok conn"
  shows "r = int (length dat)"
proof -
  from run est send_loop_never_fails [OF tx] obtain c1 w1 sent where
    loop: "send_loop fuel conn dat 0 w = Some (SendDone c1 w1 sent)"
    and r: "r = sint (word_of_nat sent :: 32 word)"
    by (auto simp: sham_send_def split: option.splits send_phase.splits)
  from send_loop_send_ok [OF ok _ loop] have "sent = length dat" by simp
  moreover have "sint (word_of_nat (length dat) :: 32 word) = int (length dat)"
    using len by (simp add: signed_of_nat signed_take_bit_int_eq_self)
  ultimately show ?thesis using r by simp
qed


section \<open>A transfer longer than an int can count\<close>

lemma ack_all_empties:
  "0 \<le> window_count conn \<Longrightarrow> window_count (ack_window_loop (- 1) conn) = 0"
proof (induction "nat (window_count conn)" arbitrary: conn)
  case 0
  then have "ack_window_loop (- 1) conn = conn"
    by (intro ack_loop_stop) simp
  with 0 show ?case by simp
next
  case (Suc n)
  let ?first = "send_window conn ! nat (window_start conn)"
  let ?c = "conn\<lparr>send_window := (send_window conn)
                 [nat (window_start conn) := ?first\<lparr>acked := True\<rparr>],
             send_base := entry_end ?first,
             window_start := (window_start conn + 1) mod SHAM_WINDOW_SIZE,
             window_count := window_count conn - 1\<rparr>"
  from Suc.hyps(2) have pos: "0 < window_count conn" by linarith
  have "entry_end ?first \<le> - 1" by simp
  from ack_loop_step [OF pos this] have eq: "ack_window_loop (- 1) conn = ack_window_loop (- 1) ?c" .
  have "n = nat (window_count ?c)" "0 \<le> window_count ?c"
    using Suc.hyps(2) pos by simp_all
  from Suc.hyps(1) [OF this] eq show ?case by simp
qed

lemma process_ack_all:
  assumes ok: "send_ok conn"
    and a: "ack_num (header p) = - 1"
  shows "window_count (sham_process_ack conn p) = 0"
    and "last_byte_acked (sham_process_ack conn p) = - 1"
    and "peer_window_size (sham_process_ack conn p) = window_size (header p)"
    and "last_byte_sent (sham_process_ack conn p) = last_byte_sent conn"
    and "loss_rate (sham_process_ack conn p) = loss_rate conn"
proof -
  let ?c = "conn\<lparr>peer_window_size := window_size (header p)\<rparr>"
  let ?c2 = "if ack_num (header p) > last_byte_acked ?c
             then ?c\<lparr>last_byte_acked := ack_num (header p)\<rparr> else ?c"
  have pa: "sham_process_ack conn p = ack_window_loop (- 1) ?c2"
    by (simp add: sham_process_ack_def Let_def a)
  from ok have "0 \<le> window_count ?c2" by (simp add: send_ok_def)
  from ack_all_empties [OF this] pa show "window_count (sham_process_ack conn p) = 0"
    by simp
  have "last_byte_acked ?c2 = - 1"
  proof (cases "last_byte_acked conn < - 1")
    case True
    then show ?thesis by (simp add: a)
  next
    case False
    then have "last_byte_acked conn = - 1"
      by (metis word_order.extremum_strict word_order.not_eq_extremum)
    with False show ?thesis by (simp add: a)
  qed
  with pa ack_loop_fields [of "- 1" ?c2]
  show "last_byte_acked (sham_process_ack conn p) = - 1" by simp
  from pa ack_loop_fields [of "- 1" ?c2]
  show "peer_window_size (sham_process_ack conn p) = window_size (header p)"
    and "last_byte_sent (sham_process_ack conn p) = last_byte_sent conn"
    by simp_all
  have "loss_rate (ack_window_loop ackn c) = loss_rate c" for ackn c
  proof (induction "nat (window_count c)" arbitrary: c)
    case 0
    then have "ack_window_loop ackn c = c" by (intro ack_loop_stop) simp
    then show ?case by simp
  next
    case (Suc n)
    show ?case
    proof (cases "entry_end (send_window c ! nat (window_start c)) \<le> ackn")
      case False
      then have "ack_window_loop ackn c = c" by (intro ack_loop_stop) (simp add: not_le)
      then show ?thesis by simp
    next
      case True
      from Suc.hyps(2) have pos: "0 < window_count c" by linarith
      note eq = ack_loop_step [OF pos True]
      have "n = nat (window_count c - 1)" using Suc.hyps(2) by simp
      then show ?thesis
        by (subst eq, subst Suc.hyps(1)) simp_all
    qed
  qed
  with pa show "loss_rate (sham_process_ack conn p) = loss_rate conn" by simp
qed

lemma ack_all_drain:
  assumes inv: "ack_all_state conn w"
  shows "\<exists>c2 w2. drain_acks (Suc (Suc n)) conn w = Some (c2, w2)
           \<and> ack_all_state c2 w2 \<and> window_count c2 = 0
           \<and> last_byte_acked c2 = - 1 \<and> peer_window_size c2 = 32768
           \<and> clock_script w2 = clock_script w \<and> clock_pos w2 = clock_pos w"
proof -
  let ?p = "sham_create_packet_with_conn (sham_create_connection 5000)
              5001 4294967295 SHAM_ACK None 0"
  let ?A = "\<lparr>header = \<lparr>seq_num = 5001, ack_num = 4294967295, flags = SHAM_ACK,
                        window_size = 32768\<rparr>,
             data = [], data_len = 0\<rparr> :: sham_packet"
  let ?c1 = "if peer_len conn = 0 then conn\<lparr>peer_addr := 7, peer_len := 16\<rparr> else conn"
  let ?w1 = "w\<lparr>net_pos := net_pos w + 1\<rparr>"
  let ?c2 = "sham_process_ack ?c1 ?A"
  let ?w2 = "?w1\<lparr>net_pos := net_pos ?w1 + 1\<rparr>"
  from inv have script: "net_script w (net_pos w) = from_peer ?p"
    and nl: "loss_rate conn \<le> 0"
    by (simp_all add: ack_all_state_def ack_all_world_def)
  have p: "data_len ?p = 0" "data ?p = []"
      "seq_num (header ?p) = htonl 5001" "ack_num (header ?p) = htonl 4294967295"
      "flags (header ?p) = htons SHAM_ACK" "window_size (header ?p) = htons 32768"
    by (simp_all add: sham_create_packet_with_conn_def sham_create_packet_def Let_def
          sham_calculate_advertised_window_def sham_create_connection_def)
  have rp1: "sham_recv_packet_timeout conn w = (GotPacket 12 ?A, ?c1, ?w1)"
    using recv_from_peer [OF script nl] p by simp
  from inv recv_packet_timeout_send_ok [OF rp1]
  have ok1: "send_ok ?c1" and st1: "state ?c1 = SHAM_ESTABLISHED"
    by (simp_all add: ack_all_state_def)
  from inv have nl1: "loss_rate ?c1 \<le> 0"
    by (simp add: ack_all_state_def)
  have a: "ack_num (header ?A) = - 1" by simp
  note pa = process_ack_all [OF ok1 a] process_ack_send_ok [OF ok1, of ?A]
  from inv have "net_script ?w1 (net_pos ?w1) = SelTimeout"
    by (simp add: ack_all_state_def ack_all_world_def)
  then have rp2: "sham_recv_packet_timeout ?c2 ?w1 = (NoPacket 0, ?c2, ?w2)"
    by (simp add: sham_recv_packet_timeout_def Let_def)
  have "drain_acks (Suc (Suc n)) conn w = Some (?c2, ?w2)"
    using rp1 rp2 by simp
  moreover have "ack_all_state ?c2 ?w2"
    using inv pa st1 nl1 by (simp add: ack_all_state_def)
  moreover have "window_count ?c2 = 0" "last_byte_acked ?c2 = - 1" "peer_window_size ?c2 = 32768"
    using pa by simp_all
  ultimately show ?thesis by (intro exI [of _ ?c2] exI [of _ ?w2]) simp
qed

lemma handle_timeout_empty:
  "window_count conn = 0 \<Longrightarrow>
     sham_handle_timeout conn w = (0, conn, w\<lparr>clock_pos := clock_pos w + 1\<rparr>)"
  by (simp add: sham_handle_timeout_def gettimeofday_def timeout_loop_done)

lemma ack_all_step:
  assumes inv: "ack_all_state conn w" and more: "bytes_sent < length dat"
  shows "\<exists>c' w'. send_step (Suc (Suc n)) conn dat bytes_sent w
                    = Some (StepSent c' w' (min SHAM_MAX_DATA_SIZE (length dat - bytes_sent)))
           \<and> ack_all_state c' w'"
proof -
  let ?k = "min SHAM_MAX_DATA_SIZE (length dat - bytes_sent)"
  from ack_all_drain [OF inv, of n] obtain c2 w2 where
    d: "drain_acks (Suc (Suc n)) conn w = Some (c2, w2)"
    and inv2: "ack_all_state c2 w2" and empty: "window_count c2 = 0"
    and lba: "last_byte_acked c2 = - 1" and pw: "peer_window_size c2 = 32768"
    by blast
  let ?w3 = "w2\<lparr>clock_pos := clock_pos w2 + 1\<rparr>"
  note h = handle_timeout_empty [OF empty, of w2]
  from more have k: "0 < ?k" "?k \<le> SHAM_MAX_DATA_SIZE" by simp_all
  have flight: "bytes_in_flight c2 = 0"
  proof (cases "last_byte_sent c2 = - 1")
    case True
    then show ?thesis by (simp add: bytes_in_flight_def lba)
  next
    case False
    then have "\<not> - 1 \<le> last_byte_sent c2"
      by (metis word_order.extremum_unique)
    then show ?thesis by (simp add: bytes_in_flight_def lba)
  qed
  have gate: "sham_can_send_data c2 ?k"
    using k by (simp add: sham_can_send_data_def available_window_unat flight pw)
  from inv2 have ok2: "send_ok c2" and tx: "sendto_script w2 = (\<lambda>i. True)"
    by (simp_all add: ack_all_state_def)
  have "\<exists>c3 w4. send_segment c2 dat bytes_sent ?k ?w3 = Inr (c3, w4)
      \<and> net_script w4 = net_script w2 \<and> net_pos w4 = net_pos w2
      \<and> sendto_script w4 = sendto_script w2"
    using tx
    by (simp add: send_segment_def sham_send_packet_def Let_def gettimeofday_def)
  then obtain c3 w4 where seg: "send_segment c2 dat bytes_sent ?k ?w3 = Inr (c3, w4)"
    and w4: "net_script w4 = net_script w2" "net_pos w4 = net_pos w2"
       "sendto_script w4 = sendto_script w2"
    by blast
  have room: "window_count c2 < SHAM_WINDOW_SIZE" using empty by simp
  from send_segment_send_ok [OF ok2 room k seg] have ok3: "send_ok c3"
    and st3: "state c3 = state c2" by simp_all
  from send_segment_Inr [OF seg] have f3: "window_count c3 = window_count c2 + 1"
    "loss_rate c3 = loss_rate c2" by auto
  have "send_step (Suc (Suc n)) conn dat bytes_sent w = Some (StepSent c3 w4 ?k)"
    using send_step_unfold [OF d h, of dat bytes_sent] gate room seg by simp
  moreover have "ack_all_state c3 w4"
    using inv2 ok3 st3 f3 w4 empty by (simp add: ack_all_state_def)
  ultimately show ?thesis by blast
qed

lemma ack_all_loop:
  "ack_all_state conn w \<Longrightarrow> bytes_sent \<le> length dat \<Longrightarrow>
   length dat - bytes_sent + 3 \<le> fuel \<Longrightarrow>
     \<exists>c' w'. send_loop fuel conn dat bytes_sent w = Some (SendDone c' w' (length dat))
            \<and> ack_all_state c' w'"
proof (induction fuel arbitrary: conn bytes_sent w)
  case 0
  then show ?case by simp
next
  case (Suc fuel)
  show ?case
  proof (cases "bytes_sent < length dat")
    case False
    with Suc.prems show ?thesis by simp
  next
    case True
    with Suc.prems(3) have "fuel = Suc (Suc (fuel - 2))" by linarith
    then obtain n where fuel: "fuel = Suc (Suc n)" ..
    let ?k = "min SHAM_MAX_DATA_SIZE (length dat - bytes_sent)"
    from ack_all_step [OF Suc.prems(1) True, of n] obtain c1 w1 where
      step: "send_step fuel conn dat bytes_sent w = Some (StepSent c1 w1 ?k)"
      and inv1: "ack_all_state c1 w1"
      unfolding fuel by blast
    from True have k: "0 < ?k" "bytes_sent + ?k \<le> length dat" by simp_all
    with Suc.prems(3) have "length dat - (bytes_sent + ?k) + 3 \<le> fuel" by linarith
    from Suc.IH [OF inv1 k(2) this] step True show ?thesis by simp
  qed
qed

lemma ack_all_wait:
  assumes inv: "ack_all_state conn w"
  shows "\<exists>c' w'. wait_acks (Suc (Suc n)) conn w = Some (c', w')"
proof (cases "0 < window_count conn")
  case False
  then show ?thesis by simp
next
  case True
  let ?p = "sham_create_packet_with_conn (sham_create_connection 5000)
              5001 4294967295 SHAM_ACK None 0"
  let ?A = "\<lparr>header = \<lparr>seq_num = 5001, ack_num = 4294967295, flags = SHAM_ACK,
                        window_size = 32768\<rparr>,
             data = [], data_len = 0\<rparr> :: sham_packet"
  let ?c1 = "if peer_len conn = 0 then conn\<lparr>peer_addr := 7, peer_len := 16\<rparr> else conn"
  let ?w1 = "w\<lparr>net_pos := net_pos w + 1\<rparr>"
  let ?c2 = "sham_process_ack ?c1 ?A"
  from inv have script: "net_script w (net_pos w) = from_peer ?p"
    and nl: "loss_rate conn \<le> 0"
    by (simp_all add: ack_all_state_def ack_all_world_def)
  have p: "data_len ?p = 0" "data ?p = []"
      "seq_num (header ?p) = htonl 5001" "ack_num (header ?p) = htonl 4294967295"
      "flags (header ?p) = htons SHAM_ACK" "window_size (header ?p) = htons 32768"
    by (simp_all add: sham_create_packet_with_conn_def sham_create_packet_def Let_def
          sham_calculate_advertised_window_def sham_create_connection_def)
  have rp1: "sham_recv_packet_timeout conn w = (GotPacket 12 ?A, ?c1, ?w1)"
    using recv_from_peer [OF script nl] p by simp
  from inv recv_packet_timeout_send_ok [OF rp1] have ok1: "send_ok ?c1"
    by (simp add: ack_all_state_def)
  have a: "ack_num (header ?A) = - 1" by simp
  from process_ack_all(1) [OF ok1 a] have empty: "window_count ?c2 = 0" .
  note h = handle_timeout_empty [OF empty, of ?w1]
  show ?thesis
    using True rp1 h empty by simp
qed


text \<open>
  Counterexample to C2 as stated: an input of 2^32 + 1 bytes, every segment of which
  the peer acknowledges at once. \<^verbatim>\<open>sham_send\<close> sends and drains everything and returns
  \<^verbatim>\<open>(int)bytes_sent\<close>, which is 1: not an error and not the length.
\<close>

theorem sham_send_returns_truncated_length:
  "map_option fst (sham_send 4294967300 est_conn (replicate 4294967297 0) ack_all_world) = Some 1
   \<and> length (replicate 4294967297 (0 :: 8 word)) = 4294967297"
proof -
  define fuel :: nat where "fuel = 4294967300"
  define dat :: "8 word list" where "dat = replicate 4294967297 0"
  have inv: "ack_all_state est_conn ack_all_world"
    by (simp add: ack_all_state_def est_conn_eq sham_create_connection_def send_ok_def
          ack_all_world_def quiet_world_def)
  have enough: "length dat - 0 + 3 \<le> fuel"
    by (simp add: fuel_def dat_def)
  have "fuel = Suc (Suc (fuel - 2))"
    by (simp add: fuel_def)
  then obtain n where n: "fuel = Suc (Suc n)" ..
  have start: "(0 :: nat) \<le> length dat" by simp
  from ack_all_loop [OF inv start enough] obtain c1 w1 where
    loop: "send_loop fuel est_conn dat 0 ack_all_world = Some (SendDone c1 w1 (length dat))"
    and inv1: "ack_all_state c1 w1" by blast
  from ack_all_wait [OF inv1, of n] obtain c2 w2 where
    wait: "wait_acks fuel c1 w1 = Some (c2, w2)"
    unfolding n by blast
  have est: "state est_conn = SHAM_ESTABLISHED"
    by (simp add: est_conn_eq sham_create_connection_def)
  have ret: "sint (word_of_nat (length dat) :: 32 word) = 1"
    by (simp add: dat_def)
  have "sham_send fuel est_conn dat ack_all_world = Some (1, c2, w2)"
    unfolding sham_send_def using est loop wait ret by simp
  then have "map_option fst (sham_send fuel est_conn dat ack_all_world) = Some 1"
    by simp
  moreover have "length dat = 4294967297"
    by (simp add: dat_def)
  ultimately show ?thesis
    unfolding fuel_def dat_def by blast
qed


section \<open>Concrete runs of the receiver\<close>

text \<open>
  Counterexample to C3 as stated: the peer's segment 5002 arrives twice before segment
  5001 (a retransmission after a lost acknowledgment does that). Both copies are
  buffered; when 5001 arrives the first copy is delivered and \<open>recv_seq\<close> becomes 5003,
  while the second copy stays valid in slot 1 with \<open>seq_num\<close> 5002, which is less than
  \<open>recv_seq\<close>.
\<close>

theorem ooo_buffer_stale_entry:
  "map_option (\<lambda>(r, c, out, w).
       (r, out, recv_seq c, valid (ooo_buffer c ! 1),
        seq_num (header (ooo_packet (ooo_buffer c ! 1)))))
     (sham_recv 5 est_conn 100 dup_world)
   = Some (2, [65, 66], 5003, True, 5002)"
  by code_simp

text \<open>
  Counterexample to C9 as stated: the peer's second segment (5004, three bytes) arrives
  before the first (5001, three bytes) and is buffered; the application buffer has two
  bytes. When 5001 arrives two of its bytes are copied, and \<open>recv_seq\<close> goes from 5001
  to 5007, not to 5004: the buffered segment is released in the same step and none of
  its bytes is copied.
\<close>

theorem recv_advances_past_data_len:
  "map_option (\<lambda>(r, c, out, w). (r, out, recv_seq c)) (sham_recv 3 est_conn 2 gap_world)
     = Some (2, [65, 66], 5007)
   \<and> recv_seq est_conn = 5001"
  by code_simp

theorem ooo_never_at_cursor_witness:
  "ooo_ok est_conn
   \<and> sham_recv 3 est_conn 100
        (quiet_world\<lparr>net_script := arrivals
           [from_peer (sham_create_packet 5002 1001 0 (Some [66]) 1)]\<rparr>) \<noteq> None
   \<and> ooo_ok (fst (snd (the (sham_recv 3 est_conn 100
        (quiet_world\<lparr>net_script := arrivals
           [from_peer (sham_create_packet 5002 1001 0 (Some [66]) 1)]\<rparr>)))))
   \<and> 0 < length (ooo_buffer est_conn)
   \<and> valid (ooo_buffer (fst (place_segment est_conn
        \<lparr>header = \<lparr>seq_num = 5002, ack_num = 1001, flags = 0, window_size = 16384\<rparr>,
         data = [66], data_len = 1\<rparr> [] 100)) ! 0)
   \<and> \<not> valid (ooo_buffer est_conn ! 0)
   \<and> recv_seq (fst (place_segment est_conn
        \<lparr>header = \<lparr>seq_num = 5002, ack_num = 1001, flags = 0, window_size = 16384\<rparr>,
         data = [66], data_len = 1\<rparr> [] 100))
       < seq_num (header (ooo_packet (ooo_buffer (fst (place_segment est_conn
        \<lparr>header = \<lparr>seq_num = 5002, ack_num = 1001, flags = 0, window_size = 16384\<rparr>,
         data = [66], data_len = 1\<rparr> [] 100)) ! 0)))"
proof -
  let ?W = "quiet_world\<lparr>net_script := arrivals
           [from_peer (sham_create_packet 5002 1001 0 (Some [66]) 1)]\<rparr>"
  let ?Q = "\<lparr>header = \<lparr>seq_num = 5002, ack_num = 1001, flags = 0, window_size = 16384\<rparr>,
         data = [66], data_len = 1\<rparr> :: sham_packet"
  have ok: "ooo_ok est_conn" by code_simp
  have some: "sham_recv 3 est_conn 100 ?W \<noteq> None" by code_simp
  then obtain r c out w where run: "sham_recv 3 est_conn 100 ?W = Some (r, c, out, w)"
    by (cases "sham_recv 3 est_conn 100 ?W") auto
  have slot: "0 < length (ooo_buffer est_conn)"
     "valid (ooo_buffer (fst (place_segment est_conn ?Q [] 100)) ! 0)"
     "\<not> valid (ooo_buffer est_conn ! 0)"
    by code_simp+
  from ooo_never_at_cursor [of est_conn 3 100 ?W r c out w 0 ?Q "[]"] ok run slot some
  show ?thesis by simp
qed


theorem flow_gate_on_emission_witness:
  "(0 :: nat) < length [65 :: 8 word]
   \<and> (case send_step 2 est_conn [65] 0 quiet_world of
         Some (StepSent c w k) \<Rightarrow>
           k = 1 \<and> unat (bytes_in_flight c) = 1 \<and> unat (peer_window_size c) = 16384
           \<and> unat (bytes_in_flight c) \<le> unat (peer_window_size c)
       | _ \<Rightarrow> False)"
proof -
  let ?R = "send_step 2 est_conn [65] 0 quiet_world"
  have ev: "case ?R of
         Some (StepSent c w k) \<Rightarrow>
           k = 1 \<and> unat (bytes_in_flight c) = 1 \<and> unat (peer_window_size c) = 16384
       | _ \<Rightarrow> False"
    by code_simp
  then obtain c w k where r: "?R = Some (StepSent c w k)"
    by (auto split: option.splits step_result.splits)
  have more: "(0 :: nat) < length [65 :: 8 word]" by simp
  from flow_gate_on_emission [OF r more] ev r more show ?thesis by simp
qed


section \<open>Concrete runs of the sender\<close>

text \<open>
  Counterexample to C4 as stated: \<^verbatim>\<open>sham_send\<close> has sent 1026 bytes in two segments
  when an acknowledgment of nothing new arrives from a receiver whose buffer is full,
  advertising a window of 1024. After \<^verbatim>\<open>sham_process_ack\<close> 1025 bytes are in flight
  and \<open>peer_window_size\<close> is 1024.
\<close>

theorem in_flight_above_shrunk_window:
  "(case send_loop 3 est_conn (replicate 1026 0) 0 shrink_world of
      Some (SendDone c1 w1 n) \<Rightarrow>
        (case sham_recv_packet_timeout c1 w1 of
           (GotPacket r p, c2, w2) \<Rightarrow>
             Some (n, flags (header p), window_size (header p),
                   bytes_in_flight (sham_process_ack c2 p),
                   peer_window_size (sham_process_ack c2 p))
         | _ \<Rightarrow> None)
    | _ \<Rightarrow> None)
   = Some (1026, SHAM_ACK, 1024, 1025, 1024)"
  by code_simp

text \<open>
  C5 fails in the close handshake. \<^verbatim>\<open>sham_close\<close> builds its FIN and its final ACK
  with \<^verbatim>\<open>sham_create_packet\<close>, which writes the default window 16384 into the header;
  the window is not overridden as \<^verbatim>\<open>sham_create_packet_with_conn\<close> does for every other
  packet. Here the receive buffer is empty, so the advertised window should be
  max (32768 - 0) 1024 = 32768, and the final ACK carries 16384.
\<close>

theorem close_ack_window_not_advertised:
  "map_option (\<lambda>(r, c, w).
       (r, state c, map (\<lambda>p. (ntohs (flags (header p)), ntohs (window_size (header p)))) (wire w),
        sham_calculate_advertised_window c))
     (sham_close 3 est_conn fin_world)
   = Some (0, SHAM_CLOSED, [(SHAM_FIN, 16384), (SHAM_ACK, 16384)], 32768)"
  by code_simp

text \<open>
  C1 fails in \<^verbatim>\<open>sham_send\<close>. One byte is sent and no acknowledgment comes. The segment
  times out in every round of the waiting loop: five times it is retransmitted (six
  packets on the wire), the sixth time \<^verbatim>\<open>sham_handle_timeout\<close> finds \<open>retries = 5\<close> and
  returns \<open>-1\<close>. \<^verbatim>\<open>sham_send\<close> does not look at that value: it waits on, and when the
  acknowledgment arrives at the eighth wait it returns 1, the number of bytes, not an
  error.
\<close>

theorem send_ignores_retry_exhaustion:
  "map_option (\<lambda>(r, c, w).
       (r, window_count c, retries (send_window c ! 0), net_pos w, length (wire w)))
     (sham_send 10 est_conn [65] late_ack_world)
   = Some (1, 0, 5, 8, 6)"
  by code_simp


theorem sham_send_success_witness:
  "state est_conn = SHAM_ESTABLISHED \<and> send_ok est_conn \<and> length [65 :: 8 word] < 2 ^ 31
   \<and> sham_send 4 est_conn [65] prompt_ack_world \<noteq> None
   \<and> fst (the (sham_send 4 est_conn [65] prompt_ack_world)) = 1
   \<and> window_count (fst (snd (the (sham_send 4 est_conn [65] prompt_ack_world)))) = 0
   \<and> send_base (fst (snd (the (sham_send 4 est_conn [65] prompt_ack_world))))
       = send_seq (fst (snd (the (sham_send 4 est_conn [65] prompt_ack_world))))"
proof -
  let ?R = "sham_send 4 est_conn [65] prompt_ack_world"
  have ev: "?R \<noteq> None \<and> 0 \<le> fst (the ?R)" by code_simp
  then obtain r c w where run: "?R = Some (r, c, w)" and r: "0 \<le> r"
    by (cases ?R) auto
  have est: "state est_conn = SHAM_ESTABLISHED" and ok: "send_ok est_conn"
    by (simp_all add: est_conn_eq sham_create_connection_def send_ok_def)
  have len: "length [65 :: 8 word] < 2 ^ 31" by simp
  from sham_send_success [OF run est ok len r] run est ok show ?thesis by simp
qed


end
